theory Spec2Isabelle
  imports Main "HOL-Library.Char_ord" "HOL-Library.List_Lexorder" "HOL-Library.Multiset"
begin

section \<open>Configuration constants of \<^verbatim>\<open>bookmark_cleaner.py\<close>\<close>

definition DESTINATION_ROOT_NAME :: string where
  "DESTINATION_ROOT_NAME = ''bookmark_bar''"

definition CHROME_ROOT_NAMES :: "string set" where
  "CHROME_ROOT_NAMES =
     {''Bookmarks Bar'', ''Other Bookmarks'', ''Mobile Bookmarks'',
      ''Managed Bookmarks'', ''Reading list''}"

definition MAX_RECURSION_DEPTH :: nat where
  "MAX_RECURSION_DEPTH = 100"

section \<open>The path canonicalizer: \<^verbatim>\<open>get_canonical_path_segments\<close>\<close>

text \<open>
  Step 1 of the source is a loop over the parts of the original path that appends to
  \<^verbatim>\<open>user_defined_path_parts\<close>. The accumulator is the first argument; the three
  branches are those of the source, in its order.
\<close>

fun filter_root_names :: "string list \<Rightarrow> string list \<Rightarrow> string list" where
  "filter_root_names user_defined_path_parts [] = user_defined_path_parts"
| "filter_root_names user_defined_path_parts (part # rest) =
     (if part \<notin> CHROME_ROOT_NAMES
        then filter_root_names (user_defined_path_parts @ [part]) rest
      else if user_defined_path_parts = []
        then filter_root_names user_defined_path_parts rest
      else filter_root_names (user_defined_path_parts @ [part]) rest)"

text \<open>
  Step 3 of the source walks the user-defined parts from the last index down to index 0.
  The first argument is the list of parts still to visit, nearest ancestor first (the
  reversed user-defined parts); \<^verbatim>\<open>insert(0, name)\<close> is a cons, and \<^verbatim>\<open>break\<close>
  returns what has been placed so far.
\<close>

fun dedup_from_leaf :: "string list \<Rightarrow> string list \<Rightarrow> string set \<Rightarrow> string list" where
  "dedup_from_leaf [] final_canonical_path_segments seen_names_in_new_path =
     final_canonical_path_segments"
| "dedup_from_leaf (current_folder_name # rest) final_canonical_path_segments
       seen_names_in_new_path =
     (if current_folder_name \<notin> seen_names_in_new_path
        then dedup_from_leaf rest (current_folder_name # final_canonical_path_segments)
               (insert current_folder_name seen_names_in_new_path)
      else final_canonical_path_segments)"

text \<open>
  Step 2 reads index 0 of the original path only under the guard that the path is not
  empty, so the function raises nowhere and is modelled as a plain total function.
\<close>

definition get_canonical_path_segments :: "string list \<Rightarrow> string list" where
  "get_canonical_path_segments original_full_path_parts =
     (let user_defined_path_parts = filter_root_names [] original_full_path_parts in
      case original_full_path_parts of
        first # _ \<Rightarrow>
          if user_defined_path_parts = [] then [first]
          else dedup_from_leaf (rev user_defined_path_parts) [] {}
      | [] \<Rightarrow> dedup_from_leaf (rev user_defined_path_parts) [] {})"

section \<open>Data model\<close>

text \<open>
  The exceptions the core can raise. Neither is caught in \<^verbatim>\<open>main\<close>, so either ends
  the run.
\<close>

datatype py_error = TypeError | AttributeError

text \<open>
  A node of the bookmark document is a JSON object read with \<^verbatim>\<open>node.get(...)\<close>. The
  model keeps the keys the program reads or writes, each absent (\<open>None\<close>) or present:
  \<^verbatim>\<open>type\<close>, \<^verbatim>\<open>name\<close>, \<^verbatim>\<open>url\<close>, \<^verbatim>\<open>guid\<close>, \<^verbatim>\<open>date_added\<close>, \<^verbatim>\<open>date_modified\<close>
  and \<^verbatim>\<open>children\<close>. Values are strings, as the loader's contract has them; a string is a
  list of bytes.
\<close>

datatype node = Node (ntype: "string option") (nname: "string option") (nurl: "string option")
  (nguid: "string option") (ndate_added: "string option") (ndate_modified: "string option")
  (nchildren: "node list option")

text \<open>
  The entry record built by the collector (the dictionary literal \<^verbatim>\<open>bookmark_item\<close>),
  whose \<^verbatim>\<open>type\<close> is always \<^verbatim>\<open>"url"\<close>.
\<close>

record bookmark_item =
  item_name :: string
  item_url :: string
  item_guid :: string
  item_date_added :: string

text \<open>
  The merge structure \<^verbatim>\<open>collected_bookmarks\<close> is a dictionary whose values are
  dictionaries (created for path segments) or lists of entry records (created under the
  key \<^verbatim>\<open>'_bookmarks'\<close>). Python tells the two apart only at run time, and a folder named
  \<^verbatim>\<open>_bookmarks\<close> shares its key with the entry list, so a value is modelled as either.
  A dictionary is an association list in insertion order, which is the order
  \<^verbatim>\<open>keys()\<close> and \<^verbatim>\<open>items()\<close> iterate in.
\<close>

datatype merged = MDict "(string \<times> merged) list" | MList "bookmark_item list"

text \<open>\<^verbatim>\<open>d[k] = v\<close>: an existing key keeps its position, a new key goes last.\<close>

fun dict_set :: "('k \<times> 'v) list \<Rightarrow> 'k \<Rightarrow> 'v \<Rightarrow> ('k \<times> 'v) list" where
  "dict_set [] k v = [(k, v)]"
| "dict_set ((k', v') # d) k v = (if k' = k then (k, v) # d else (k', v') # dict_set d k v)"

section \<open>The collector: \<^verbatim>\<open>collect_bookmarks_recursively\<close>\<close>

text \<open>
  The navigation loop of the collector followed by the append to the entry list. The
  source walks \<^verbatim>\<open>current_level\<close> down the canonical path, creating an empty dictionary
  for a segment that is not a key, and mutates the level it ends at; the model rebuilds the
  dictionaries on the way back. When \<^verbatim>\<open>current_level\<close> is a list, the membership test
  is false and the assignment \<^verbatim>\<open>current_level[key] = ...\<close> raises \<^verbatim>\<open>TypeError\<close>; when
  the value under \<^verbatim>\<open>'_bookmarks'\<close> is a dictionary, \<^verbatim>\<open>.append\<close> raises
  \<^verbatim>\<open>AttributeError\<close>.
\<close>

fun place_bookmark :: "string list \<Rightarrow> bookmark_item \<Rightarrow> merged \<Rightarrow> py_error + merged" where
  "place_bookmark [] bookmark_item (MDict current_level) =
     (case map_of current_level ''_bookmarks'' of
        None \<Rightarrow> Inr (MDict (dict_set current_level ''_bookmarks'' (MList [bookmark_item])))
      | Some (MList bookmarks) \<Rightarrow>
          Inr (MDict (dict_set current_level ''_bookmarks'' (MList (bookmarks @ [bookmark_item]))))
      | Some (MDict _) \<Rightarrow> Inl AttributeError)"
| "place_bookmark (segment # rest) bookmark_item (MDict current_level) =
     (case map_of current_level segment of
        None \<Rightarrow>
          (case place_bookmark rest bookmark_item (MDict []) of
             Inl e \<Rightarrow> Inl e
           | Inr sub \<Rightarrow> Inr (MDict (dict_set current_level segment sub)))
      | Some next_level \<Rightarrow>
          (case place_bookmark rest bookmark_item next_level of
             Inl e \<Rightarrow> Inl e
           | Inr sub \<Rightarrow> Inr (MDict (dict_set current_level segment sub))))"
| "place_bookmark canonical_path bookmark_item (MList _) = Inl TypeError"

text \<open>
  The two accumulators threaded through the traversal. \<^verbatim>\<open>uuid.uuid4()\<close> is random: the
  model takes the sequence of identifiers the process draws as a parameter \<open>uuid4\<close>, and
  the state counts the draws made so far. Console output is not modelled.
\<close>

record collect_state =
  collected_bookmarks :: merged
  seen_urls :: "string set"
  uuid_calls :: nat

text \<open>\<^verbatim>\<open>s.startswith(pre)\<close>.\<close>

definition startswith :: "string \<Rightarrow> string \<Rightarrow> bool" where
  "startswith s pre = (take (length pre) s = pre)"

fun collect_bookmarks_recursively ::
  "(nat \<Rightarrow> string) \<Rightarrow> node \<Rightarrow> string list \<Rightarrow> collect_state \<Rightarrow> nat \<Rightarrow> py_error + collect_state"
and collect_children ::
  "(nat \<Rightarrow> string) \<Rightarrow> node list \<Rightarrow> string list \<Rightarrow> collect_state \<Rightarrow> nat \<Rightarrow> py_error + collect_state"
where
  "collect_bookmarks_recursively uuid4 (Node node_type name url' guid date_added date_modified children)
       current_path_parts st depth =
     (if depth > MAX_RECURSION_DEPTH then Inr st
      else if node_type = Some ''url'' then
        (case url' of
           None \<Rightarrow> Inr st
         | Some url \<Rightarrow>
             if url = [] \<or> startswith url ''javascript:'' then Inr st
             else if url \<in> seen_urls st then Inr st
             else
               (let bookmark_item =
                      \<lparr>item_name = (case name of None \<Rightarrow> ''No Name'' | Some n \<Rightarrow> n),
                       item_url = url,
                       item_guid = uuid4 (uuid_calls st),
                       item_date_added = (case date_added of None \<Rightarrow> ''0'' | Some d \<Rightarrow> d)\<rparr>;
                    canonical_path = get_canonical_path_segments current_path_parts
                in case place_bookmark canonical_path bookmark_item (collected_bookmarks st) of
                     Inl e \<Rightarrow> Inl e
                   | Inr collected \<Rightarrow>
                       Inr \<lparr>collected_bookmarks = collected,
                            seen_urls = insert url (seen_urls st),
                            uuid_calls = Suc (uuid_calls st)\<rparr>))
      else if node_type = Some ''folder'' then
        (let next_path_parts =
               (case name of
                  None \<Rightarrow> current_path_parts
                | Some folder_name \<Rightarrow>
                    if folder_name \<noteq> [] then current_path_parts @ [folder_name]
                    else current_path_parts)
         in case children of
              None \<Rightarrow> Inr st
            | Some cs \<Rightarrow> collect_children uuid4 cs next_path_parts st (depth + 1))
      else Inr st)"
| "collect_children uuid4 [] next_path_parts st depth = Inr st"
| "collect_children uuid4 (child # rest) next_path_parts st depth =
     (case collect_bookmarks_recursively uuid4 child next_path_parts st depth of
        Inl e \<Rightarrow> Inl e
      | Inr st' \<Rightarrow> collect_children uuid4 rest next_path_parts st' depth)"

section \<open>The tree builder: \<^verbatim>\<open>build_chrome_json_structure\<close>\<close>

text \<open>
  Both sorts compare \<^verbatim>\<open>x.lower()\<close>. Python's \<^verbatim>\<open>str.lower\<close> follows the Unicode case
  tables, which are not part of the program, so the builder takes it as the parameter
  \<open>lower\<close> and every property below holds for whatever function it is. A string is the
  list of bytes of its UTF-8 encoding, and the lexicographic order on byte lists is
  Python's order on \<^verbatim>\<open>str\<close> (by code point, a proper prefix first).
\<close>

definition bookmark_node :: "bookmark_item \<Rightarrow> node" where
  "bookmark_node b =
     Node (Some ''url'') (Some (item_name b)) (Some (item_url b)) (Some (item_guid b))
       (Some (item_date_added b)) None None"

definition folder_node :: "string \<Rightarrow> node list \<Rightarrow> string \<Rightarrow> node" where
  "folder_node folder_name folder_children guid =
     Node (Some ''folder'') (Some folder_name) None (Some guid) (Some ''0'') (Some ''0'')
       (Some folder_children)"

text \<open>
  The builder returns the children list and the number of identifiers drawn. The source
  sorts the folder keys and looks each one up; the keys of a dictionary are unique, so the
  model sorts the items by their key. \<^verbatim>\<open>sorted\<close> is stable, as \<open>sort_key\<close> is.
  Called on a list, the builder reaches \<^verbatim>\<open>.keys()\<close> and raises \<^verbatim>\<open>AttributeError\<close>;
  when the value under \<^verbatim>\<open>'_bookmarks'\<close> is a non-empty dictionary, the sort key
  \<^verbatim>\<open>x['name']\<close> is applied to a string and raises \<^verbatim>\<open>TypeError\<close>, after the folders
  have been built.
\<close>

function build_chrome_json_structure ::
  "(string \<Rightarrow> string) \<Rightarrow> (nat \<Rightarrow> string) \<Rightarrow> merged \<Rightarrow> nat
     \<Rightarrow> py_error + (node list \<times> nat)"
and build_folders ::
  "(string \<Rightarrow> string) \<Rightarrow> (nat \<Rightarrow> string) \<Rightarrow> (string \<times> merged) list \<Rightarrow> nat
     \<Rightarrow> py_error + (node list \<times> nat)"
where
  "build_chrome_json_structure lower uuid4 (MList bookmarks) calls = Inl AttributeError"
| "build_chrome_json_structure lower uuid4 (MDict collected_node_dict) calls =
     (let direct_bookmarks =
            (case map_of collected_node_dict ''_bookmarks'' of
               Some v \<Rightarrow> v
             | None \<Rightarrow> MList []);
          temp_dict_for_folders =
            (case map_of collected_node_dict ''_bookmarks'' of
               Some v \<Rightarrow> filter (\<lambda>kv. fst kv \<noteq> ''_bookmarks'') collected_node_dict
             | None \<Rightarrow> collected_node_dict)
      in case build_folders lower uuid4 (sort_key (\<lambda>kv. lower (fst kv)) temp_dict_for_folders) calls of
           Inl e \<Rightarrow> Inl e
         | Inr (children_list, calls') \<Rightarrow>
             (case direct_bookmarks of
                MList bookmarks \<Rightarrow>
                  Inr (children_list
                         @ map bookmark_node (sort_key (\<lambda>x. lower (item_name x)) bookmarks),
                       calls')
              | MDict d \<Rightarrow> if d = [] then Inr (children_list, calls') else Inl TypeError))"
| "build_folders lower uuid4 [] calls = Inr ([], calls)"
| "build_folders lower uuid4 ((folder_name, folder_content) # rest) calls =
     (case build_chrome_json_structure lower uuid4 folder_content calls of
        Inl e \<Rightarrow> Inl e
      | Inr (folder_children, calls') \<Rightarrow>
          (case build_folders lower uuid4 rest (Suc calls') of
             Inl e \<Rightarrow> Inl e
           | Inr (children_list, calls'') \<Rightarrow>
               Inr (folder_node folder_name folder_children (uuid4 calls') # children_list,
                    calls'')))"
  by pat_completeness auto
termination
proof -
  have ins: "sum_list (map f (insort_key k x xs)) = f x + sum_list (map f xs)"
    for f :: "string \<times> merged \<Rightarrow> nat" and k :: "string \<times> merged \<Rightarrow> string" and x xs
    by (induction xs) auto
  have srt: "size_list f (sort_key k xs) = size_list f xs"
    for f :: "string \<times> merged \<Rightarrow> nat" and k :: "string \<times> merged \<Rightarrow> string" and xs
    by (induction xs) (auto simp: size_list_conv_sum_list ins)
  have flt: "size_list f (filter P xs) \<le> size_list f xs"
    for f :: "string \<times> merged \<Rightarrow> nat" and P xs
    by (induction xs) auto
  show ?thesis
    by (relation "measure (\<lambda>x. case x of
                    Inl (_, _, m, _) \<Rightarrow> 2 * size m
                  | Inr (_, _, kvs, _) \<Rightarrow> 2 * size_list (size_prod (\<lambda>_. 0) size) kvs + 1)")
       (auto simp: srt flt less_Suc_eq_le split: option.splits)
qed

section \<open>The run: \<^verbatim>\<open>main\<close> from the loaded document on\<close>

text \<open>
  The loaded document: its \<^verbatim>\<open>roots\<close> mapping, if present, and its other top-level keys,
  which the program never reads.
\<close>

record document =
  doc_roots :: "(string \<times> node) list option"
  doc_other_keys :: "(string \<times> string) list"

text \<open>
  How a run ends: the message \<^verbatim>\<open>main\<close> prints before it returns, or the exception
  that ends it. The result records the document as it stands in memory at that point, and
  the document passed to \<^verbatim>\<open>save_bookmarks\<close>, if the run gets there.
\<close>

datatype run_status =
  NoData | NoRootsSection | NothingCollected | DestinationNotFound | SaveCalled
  | Raised py_error

record run_result =
  run_status :: run_status
  run_memory :: document
  run_saved :: "document option"

fun set_children :: "node \<Rightarrow> node list \<Rightarrow> node" where
  "set_children (Node node_type name url guid date_added date_modified children) new_children =
     Node node_type name url guid date_added date_modified (Some new_children)"

fun collect_roots ::
  "(nat \<Rightarrow> string) \<Rightarrow> (string \<times> node) list \<Rightarrow> collect_state \<Rightarrow> py_error + collect_state"
where
  "collect_roots uuid4 [] st = Inr st"
| "collect_roots uuid4 ((root_name, root_node) # rest) st =
     (if root_name \<in> CHROME_ROOT_NAMES then
        (case collect_bookmarks_recursively uuid4 root_node [root_name] st 0 of
           Inl e \<Rightarrow> Inl e
         | Inr st' \<Rightarrow> collect_roots uuid4 rest st')
      else collect_roots uuid4 rest st)"

definition clear_root :: "string \<times> node \<Rightarrow> string \<times> node" where
  "clear_root kv =
     (if fst kv \<in> CHROME_ROOT_NAMES \<and> nchildren (snd kv) \<noteq> None
        then (fst kv, set_children (snd kv) [])
      else kv)"

definition initial_state :: collect_state where
  "initial_state = \<lparr>collected_bookmarks = MDict [], seen_urls = {}, uuid_calls = 0\<rparr>"

text \<open>
  \<^verbatim>\<open>main\<close> from line 258 on, after the document has been located, backed up and loaded.
  The steps are in the order of the source: collect, stop if nothing was collected, clear
  the root-marker containers, build, then look for the destination.
\<close>

definition reorganize ::
  "(string \<Rightarrow> string) \<Rightarrow> (nat \<Rightarrow> string) \<Rightarrow> document \<Rightarrow> run_result"
where
  "reorganize lower uuid4 bookmark_data =
     (if doc_roots bookmark_data = None \<and> doc_other_keys bookmark_data = [] then
        \<lparr>run_status = NoData, run_memory = bookmark_data, run_saved = None\<rparr>
      else
        (case doc_roots bookmark_data of
           None \<Rightarrow> \<lparr>run_status = NoRootsSection, run_memory = bookmark_data, run_saved = None\<rparr>
         | Some roots \<Rightarrow>
             if roots = [] then
               \<lparr>run_status = NoRootsSection, run_memory = bookmark_data, run_saved = None\<rparr>
             else
               (case collect_roots uuid4 roots initial_state of
                  Inl e \<Rightarrow>
                    \<lparr>run_status = Raised e, run_memory = bookmark_data, run_saved = None\<rparr>
                | Inr st \<Rightarrow>
                    if collected_bookmarks st = MDict [] then
                      \<lparr>run_status = NothingCollected, run_memory = bookmark_data,
                       run_saved = None\<rparr>
                    else
                      (let cleared = bookmark_data\<lparr>doc_roots := Some (map clear_root roots)\<rparr>
                       in case build_chrome_json_structure lower uuid4 (collected_bookmarks st)
                                 (uuid_calls st) of
                            Inl e \<Rightarrow>
                              \<lparr>run_status = Raised e, run_memory = cleared, run_saved = None\<rparr>
                          | Inr (new_root_children, calls) \<Rightarrow>
                              (case map_of (map clear_root roots) DESTINATION_ROOT_NAME of
                                 Some destination \<Rightarrow>
                                   (let rewritten = cleared\<lparr>doc_roots :=
                                          Some (dict_set (map clear_root roots)
                                                  DESTINATION_ROOT_NAME
                                                  (set_children destination new_root_children))\<rparr>
                                    in \<lparr>run_status = SaveCalled, run_memory = rewritten,
                                        run_saved = Some rewritten\<rparr>)
                               | None \<Rightarrow>
                                   \<lparr>run_status = DestinationNotFound, run_memory = cleared,
                                    run_saved = None\<rparr>)))))"


section \<open>Notions used to state the properties\<close>

text \<open>
  The entries of a children list: its nodes of type \<^verbatim>\<open>url\<close>, at any depth, in document
  order.
\<close>

fun node_entries :: "node \<Rightarrow> node list"
and nodes_entries :: "node list \<Rightarrow> node list"
where
  "node_entries (Node node_type name url guid date_added date_modified children) =
     (if node_type = Some ''url''
        then [Node node_type name url guid date_added date_modified children]
      else (case children of None \<Rightarrow> [] | Some cs \<Rightarrow> nodes_entries cs))"
| "nodes_entries [] = []"
| "nodes_entries (n # ns) = node_entries n @ nodes_entries ns"

text \<open>
  A node of the merge structure as the data model describes it: a dictionary in which the
  key \<^verbatim>\<open>'_bookmarks'\<close> holds a list of entries and every other key holds a node.
\<close>

fun merge_node :: "merged \<Rightarrow> bool"
and merge_items :: "(string \<times> merged) list \<Rightarrow> bool"
where
  "merge_node (MList bookmarks) = False"
| "merge_node (MDict d) = merge_items d"
| "merge_items [] = True"
| "merge_items ((k, v) # rest) =
     ((if k = ''_bookmarks'' then (case v of MList _ \<Rightarrow> True | MDict _ \<Rightarrow> False)
       else merge_node v)
      \<and> merge_items rest)"

text \<open>The folder keys of a node and its direct entries, in insertion order.\<close>

fun folder_names :: "merged \<Rightarrow> string list" where
  "folder_names (MDict d) = filter (\<lambda>k. k \<noteq> ''_bookmarks'') (map fst d)"
| "folder_names (MList bookmarks) = []"

fun direct_entries :: "merged \<Rightarrow> bookmark_item list" where
  "direct_entries (MDict d) =
     (case map_of d ''_bookmarks'' of Some (MList bookmarks) \<Rightarrow> bookmarks | _ \<Rightarrow> [])"
| "direct_entries (MList bookmarks) = []"

text \<open>The name of a record, lower-cased: what both sorts compare.\<close>

definition name_key :: "(string \<Rightarrow> string) \<Rightarrow> node \<Rightarrow> string" where
  "name_key lower n = (case nname n of None \<Rightarrow> [] | Some name \<Rightarrow> lower name)"

text \<open>
  A children list with the \<^verbatim>\<open>guid\<close> of every record removed, and the result of a build
  reduced to it: what does not depend on the identifiers drawn.
\<close>

fun erase_guid :: "node \<Rightarrow> node"
and erase_guids :: "node list \<Rightarrow> node list"
where
  "erase_guid (Node node_type name url guid date_added date_modified children) =
     Node node_type name url None date_added date_modified
       (case children of None \<Rightarrow> None | Some cs \<Rightarrow> Some (erase_guids cs))"
| "erase_guids [] = []"
| "erase_guids (n # ns) = erase_guid n # erase_guids ns"

definition outline :: "py_error + node list \<times> nat \<Rightarrow> py_error + node list" where
  "outline r = (case r of Inl e \<Rightarrow> Inl e | Inr (children_list, calls) \<Rightarrow> Inr (erase_guids children_list))"

text \<open>
  The entry records held anywhere in a merge structure, and the property that every
  dictionary in it has unique keys, which an association list does not give by itself.
\<close>

fun bookmarks_in :: "merged \<Rightarrow> bookmark_item list"
and bookmarks_in_items :: "(string \<times> merged) list \<Rightarrow> bookmark_item list"
where
  "bookmarks_in (MList bookmarks) = bookmarks"
| "bookmarks_in (MDict d) = bookmarks_in_items d"
| "bookmarks_in_items [] = []"
| "bookmarks_in_items ((k, v) # rest) = bookmarks_in v @ bookmarks_in_items rest"

fun distinct_keys :: "merged \<Rightarrow> bool"
and distinct_keys_items :: "(string \<times> merged) list \<Rightarrow> bool"
where
  "distinct_keys (MList bookmarks) = True"
| "distinct_keys (MDict d) = (distinct (map fst d) \<and> distinct_keys_items d)"
| "distinct_keys_items [] = True"
| "distinct_keys_items ((k, v) # rest) = (distinct_keys v \<and> distinct_keys_items rest)"

text \<open>
  The traversal order of the collector, stated on its own: the nodes of type \<^verbatim>\<open>url\<close> with
  a collectable URL, in the order in which the depth-first walk of the root-marker containers
  reaches them, down to the depth limit. \<open>candidate\<close> gives the URL of such a node with the
  name and the creation timestamp the collector would record for it, and \<open>first_seen\<close> maps
  each URL to the name and timestamp of its first occurrence in a sequence of nodes.
\<close>

fun candidate :: "node \<Rightarrow> string \<times> string \<times> string" where
  "candidate (Node node_type name url guid date_added date_modified children) =
     ((case url of None \<Rightarrow> [] | Some u \<Rightarrow> u),
      (case name of None \<Rightarrow> ''No Name'' | Some n \<Rightarrow> n),
      (case date_added of None \<Rightarrow> ''0'' | Some d \<Rightarrow> d))"

fun traversal :: "node \<Rightarrow> nat \<Rightarrow> node list"
and traversal_children :: "node list \<Rightarrow> nat \<Rightarrow> node list"
where
  "traversal (Node node_type name url guid date_added date_modified children) depth =
     (if depth > MAX_RECURSION_DEPTH then []
      else if node_type = Some ''url'' then
        (case url of
           None \<Rightarrow> []
         | Some u \<Rightarrow>
             if u = [] \<or> startswith u ''javascript:'' then []
             else [Node node_type name url guid date_added date_modified children])
      else if node_type = Some ''folder'' then
        (case children of None \<Rightarrow> [] | Some cs \<Rightarrow> traversal_children cs (depth + 1))
      else [])"
| "traversal_children [] depth = []"
| "traversal_children (child # rest) depth =
     traversal child depth @ traversal_children rest depth"

fun traversal_roots :: "(string \<times> node) list \<Rightarrow> node list" where
  "traversal_roots [] = []"
| "traversal_roots ((root_name, root_node) # rest) =
     (if root_name \<in> CHROME_ROOT_NAMES then traversal root_node 0 else [])
     @ traversal_roots rest"

definition first_seen :: "node list \<Rightarrow> string \<Rightarrow> (string \<times> string) option" where
  "first_seen visited = map_of (map candidate visited)"

text \<open>
  The invariant of the collector after it has visited a sequence of nodes: the dictionaries
  have unique keys, the entries held have pairwise different URLs, the seen URLs are the
  URLs of the entries held and of the nodes visited, and each entry carries the name and
  timestamp of the first visited node with its URL.
\<close>

definition collected_from :: "node list \<Rightarrow> collect_state \<Rightarrow> bool" where
  "collected_from visited st \<longleftrightarrow>
     distinct_keys (collected_bookmarks st)
   \<and> distinct (map item_url (bookmarks_in (collected_bookmarks st)))
   \<and> seen_urls st = set (map item_url (bookmarks_in (collected_bookmarks st)))
   \<and> (\<forall>b \<in> set (bookmarks_in (collected_bookmarks st)).
         first_seen visited (item_url b) = Some (item_name b, item_date_added b))
   \<and> dom (first_seen visited) = seen_urls st"

text \<open>Whether the document has the destination container, and its children list.\<close>

definition destination_present :: "document \<Rightarrow> bool" where
  "destination_present bookmark_data =
     (case doc_roots bookmark_data of
        None \<Rightarrow> False
      | Some roots \<Rightarrow> map_of roots DESTINATION_ROOT_NAME \<noteq> None)"

definition destination_children :: "document \<Rightarrow> node list option" where
  "destination_children bookmark_data =
     (case doc_roots bookmark_data of
        None \<Rightarrow> None
      | Some roots \<Rightarrow>
          (case map_of roots DESTINATION_ROOT_NAME of
             None \<Rightarrow> None
           | Some destination \<Rightarrow> nchildren destination))"

text \<open>
  Sample documents, a sample sequence of identifiers and a sample \<open>lower\<close>, for concrete
  runs. \<open>ascii_lower\<close> is \<^verbatim>\<open>str.lower\<close> on strings of ASCII characters, which is all the
  sample documents hold.
\<close>

definition ascii_lower_char :: "char \<Rightarrow> char" where
  "ascii_lower_char c =
     (case map_of (zip ''ABCDEFGHIJKLMNOPQRSTUVWXYZ'' ''abcdefghijklmnopqrstuvwxyz'') c of
        Some l \<Rightarrow> l
      | None \<Rightarrow> c)"

definition ascii_lower :: "string \<Rightarrow> string" where
  "ascii_lower s = map ascii_lower_char s"

definition url_node :: "string \<Rightarrow> string \<Rightarrow> node" where
  "url_node name url = Node (Some ''url'') (Some name) (Some url) None None None None"

definition folder :: "string option \<Rightarrow> node list \<Rightarrow> node" where
  "folder name children = Node (Some ''folder'') name None None None None (Some children)"

definition sample_uuid4 :: "nat \<Rightarrow> string" where
  "sample_uuid4 n = replicate (Suc n) CHR ''g''"

definition basic_merge_document :: "string \<Rightarrow> string \<Rightarrow> string \<Rightarrow> document" where
  "basic_merge_document url first_name second_name =
     \<lparr>doc_roots = Some
        [(''Bookmarks Bar'',
            folder None [folder (Some ''Work'') [folder (Some ''A'') [url_node first_name url]]]),
         (''Other Bookmarks'',
            folder None [folder (Some ''Work'') [folder (Some ''A'') [url_node second_name url]]]),
         (''bookmark_bar'', folder (Some ''Bookmarks bar'') [])],
      doc_other_keys = [(''version'', ''1'')]\<rparr>"

definition no_destination_document :: document where
  "no_destination_document =
     \<lparr>doc_roots = Some [(''Bookmarks Bar'', folder None [url_node ''x'' ''http://x''])],
      doc_other_keys = []\<rparr>"

definition empty_bar_document :: document where
  "empty_bar_document =
     \<lparr>doc_roots = Some [(''Bookmarks Bar'', folder (Some ''Bookmarks Bar'') [])],
      doc_other_keys = []\<rparr>"

definition nothing_to_collect_document :: document where
  "nothing_to_collect_document =
     \<lparr>doc_roots = Some
        [(''Bookmarks Bar'',
            folder None [url_node ''script'' ''javascript:alert(1)'',
                         Node (Some ''url'') (Some ''no url'') None None None None None]),
         (''bookmark_bar'', folder (Some ''Bookmarks bar'') [url_node ''kept'' ''http://kept''])],
      doc_other_keys = []\<rparr>"

definition sample_item :: "string \<Rightarrow> string \<Rightarrow> bookmark_item" where
  "sample_item name url =
     \<lparr>item_name = name, item_url = url, item_guid = ''guid of '' @ url, item_date_added = ''0''\<rparr>"

definition sample_merge_node :: merged where
  "sample_merge_node =
     MDict [(''B'', MDict [(''_bookmarks'', MList [sample_item ''in B'' ''http://b'']),
                          (''C'', MDict [(''_bookmarks'', MList [sample_item ''in C'' ''http://c''])])]),
            (''_bookmarks'', MList [sample_item ''Beta'' ''http://1'', sample_item ''alpha'' ''http://2'']),
            (''a'', MDict [(''_bookmarks'', MList [sample_item ''in a'' ''http://a''])])]"

definition first_seen_document :: document where
  "first_seen_document =
     \<lparr>doc_roots = Some
        [(''Bookmarks Bar'',
            folder (Some ''Bookmarks Bar'')
              [folder (Some ''News'')
                 [Node (Some ''url'') (Some ''Old name'') (Some ''http://n'') None (Some ''13'')
                    None None],
               Node (Some ''url'') (Some ''New name'') (Some ''http://n'') None (Some ''99'')
                 None None]),
         (''bookmark_bar'', folder (Some ''Bookmarks bar'') [])],
      doc_other_keys = []\<rparr>"

section \<open>Properties of the canonicalizer\<close>

lemma filter_root_names_nonempty_acc:
  "acc \<noteq> [] \<Longrightarrow> filter_root_names acc p = acc @ p"
  by (induction p arbitrary: acc) auto

lemma filter_root_names_dropWhile:
  "filter_root_names [] p = dropWhile (\<lambda>part. part \<in> CHROME_ROOT_NAMES) p"
  by (induction p) (auto simp: filter_root_names_nonempty_acc)

lemma dedup_from_leaf_distinct_input:
  "distinct xs \<Longrightarrow> set xs \<inter> seen = {} \<Longrightarrow> dedup_from_leaf xs final seen = rev xs @ final"
  by (induction xs arbitrary: final seen) auto

lemma dedup_from_leaf_shape:
  "distinct final \<Longrightarrow>
   \<exists>k. dedup_from_leaf xs final (set final) = rev (take k xs) @ final
      \<and> distinct (rev (take k xs) @ final)
      \<and> (xs \<noteq> [] \<and> hd xs \<notin> set final \<longrightarrow> 0 < k)"
proof (induction xs arbitrary: final)
  case Nil
  then show ?case by simp
next
  case (Cons x xs)
  show ?case
  proof (cases "x \<in> set final")
    case True
    with Cons.prems show ?thesis by (intro exI [of _ 0]) simp
  next
    case False
    with Cons.prems have "distinct (x # final)" by simp
    from Cons.IH [OF this] obtain k where
      k: "dedup_from_leaf xs (x # final) (set (x # final)) = rev (take k xs) @ x # final"
         "distinct (rev (take k xs) @ x # final)"
      by blast
    with False show ?thesis by (intro exI [of _ "Suc k"]) simp
  qed
qed

lemma dedup_from_leaf_rev_suffix:
  "\<exists>ys. u = ys @ dedup_from_leaf (rev u) [] {} \<and> distinct (dedup_from_leaf (rev u) [] {})
      \<and> (u \<noteq> [] \<longrightarrow> dedup_from_leaf (rev u) [] {} \<noteq> [])"
proof -
  from dedup_from_leaf_shape [of "[]" "rev u"] obtain k where
    k: "dedup_from_leaf (rev u) [] {} = rev (take k (rev u))"
       "distinct (rev (take k (rev u)))"
       "rev u \<noteq> [] \<longrightarrow> 0 < k"
    by auto
  have "u = rev (drop k (rev u)) @ rev (take k (rev u))"
    by (metis append_take_drop_id rev_append rev_rev_ident)
  moreover have "u \<noteq> [] \<longrightarrow> rev (take k (rev u)) \<noteq> []"
    using k(3) by (cases "rev u") auto
  ultimately show ?thesis using k(1,2) by metis
qed

lemma canonical_unfold:
  "p \<noteq> [] \<Longrightarrow>
   get_canonical_path_segments p =
     (if dropWhile (\<lambda>part. part \<in> CHROME_ROOT_NAMES) p = [] then [hd p]
      else dedup_from_leaf (rev (dropWhile (\<lambda>part. part \<in> CHROME_ROOT_NAMES) p)) [] {})"
  unfolding get_canonical_path_segments_def filter_root_names_dropWhile Let_def
  by (cases p) simp_all

lemma canonical_only_roots:
  "p \<noteq> [] \<Longrightarrow> set p \<subseteq> CHROME_ROOT_NAMES \<Longrightarrow> get_canonical_path_segments p = [hd p]"
  by (auto simp: canonical_unfold)

lemma canonical_user_start:
  "p \<noteq> [] \<Longrightarrow> hd p \<notin> CHROME_ROOT_NAMES \<Longrightarrow>
   get_canonical_path_segments p = dedup_from_leaf (rev p) [] {}"
  by (cases p) (auto simp: canonical_unfold)

lemma canonical_cases:
  assumes "p \<noteq> []"
  shows "(set p \<subseteq> CHROME_ROOT_NAMES \<and> get_canonical_path_segments p = [hd p])
       \<or> (\<exists>u. u \<noteq> [] \<and> hd u \<notin> CHROME_ROOT_NAMES
              \<and> u = dropWhile (\<lambda>part. part \<in> CHROME_ROOT_NAMES) p
              \<and> get_canonical_path_segments p = dedup_from_leaf (rev u) [] {})"
proof (cases "set p \<subseteq> CHROME_ROOT_NAMES")
  case True
  with assms show ?thesis by (simp add: canonical_only_roots)
next
  case False
  define u where "u = dropWhile (\<lambda>part. part \<in> CHROME_ROOT_NAMES) p"
  from False have ne: "u \<noteq> []" by (auto simp: u_def)
  then have "hd u \<notin> CHROME_ROOT_NAMES"
    unfolding u_def by (metis hd_dropWhile)
  moreover from assms False have "get_canonical_path_segments p = dedup_from_leaf (rev u) [] {}"
    by (auto simp: canonical_unfold u_def)
  ultimately show ?thesis using ne u_def by blast
qed

lemma canonical_distinct:
  "distinct r \<Longrightarrow> r \<noteq> [] \<Longrightarrow> hd r \<notin> CHROME_ROOT_NAMES \<Longrightarrow> get_canonical_path_segments r = r"
  by (simp add: canonical_user_start dedup_from_leaf_distinct_input)

lemma canonical_again:
  assumes ne: "r \<noteq> []" and dist: "distinct r"
  shows "get_canonical_path_segments r = r
     \<longleftrightarrow> (length r = 1 \<or> hd r \<notin> CHROME_ROOT_NAMES)"
proof (cases "hd r \<in> CHROME_ROOT_NAMES")
  case False
  with dist ne show ?thesis by (simp add: canonical_distinct)
next
  case True
  show ?thesis
  proof (cases "set r \<subseteq> CHROME_ROOT_NAMES")
    case all: True
    with ne have "get_canonical_path_segments r = [hd r]" by (simp add: canonical_only_roots)
    with True ne show ?thesis by (cases r) auto
  next
    case some: False
    from canonical_cases [OF ne] some obtain u where
      u: "u \<noteq> []" "u = dropWhile (\<lambda>part. part \<in> CHROME_ROOT_NAMES) r"
         "get_canonical_path_segments r = dedup_from_leaf (rev u) [] {}"
      by blast
    from dedup_from_leaf_rev_suffix [of u]
    have "length (dedup_from_leaf (rev u) [] {}) \<le> length u"
      by (metis length_append le_add2)
    moreover from True ne u(2) have "length u < length r"
      by (cases r) (auto simp: le_imp_less_Suc length_dropWhile_le)
    ultimately have "get_canonical_path_segments r \<noteq> r" using u(3) by auto
    moreover from True ne some have "length r \<noteq> 1" by (cases r) auto
    ultimately show ?thesis using True by simp
  qed
qed

text \<open>
  Claim C6. The canonicalizer is total (it is a plain function: no branch of the source
  raises), and on every non-empty input it returns a non-empty sequence.
\<close>

theorem canonical_nonempty:
  "p \<noteq> [] \<Longrightarrow> get_canonical_path_segments p \<noteq> []"
  using canonical_cases [of p] dedup_from_leaf_rev_suffix by (metis list.distinct(1))

theorem canonical_nonempty_witness:
  "[''Bookmarks Bar'', ''Work''] \<noteq> []
   \<and> get_canonical_path_segments [''Bookmarks Bar'', ''Work''] \<noteq> []"
  using canonical_nonempty [of "[''Bookmarks Bar'', ''Work'']"] by simp

text \<open>
  Claim C7. A non-empty path made of root-marker names only canonicalizes to the single
  first segment of the original input; the one-segment path \<open>[''Bookmarks Bar'']\<close> is
  returned unchanged.
\<close>

theorem canonical_root_only:
  "(p \<noteq> [] \<longrightarrow> dropWhile (\<lambda>part. part \<in> CHROME_ROOT_NAMES) p = [] \<longrightarrow>
      get_canonical_path_segments p = [hd p])
   \<and> get_canonical_path_segments [''Bookmarks Bar''] = [''Bookmarks Bar'']"
proof -
  have "get_canonical_path_segments p = [hd p]"
    if "p \<noteq> []" "dropWhile (\<lambda>part. part \<in> CHROME_ROOT_NAMES) p = []"
    using that by (simp add: canonical_unfold)
  moreover have "get_canonical_path_segments [''Bookmarks Bar''] = [''Bookmarks Bar'']"
    by (simp add: get_canonical_path_segments_def CHROME_ROOT_NAMES_def)
  ultimately show ?thesis by blast
qed

theorem canonical_root_only_witness:
  "[''Other Bookmarks'', ''Bookmarks Bar''] \<noteq> []
   \<and> dropWhile (\<lambda>part. part \<in> CHROME_ROOT_NAMES) [''Other Bookmarks'', ''Bookmarks Bar''] = []
   \<and> get_canonical_path_segments [''Other Bookmarks'', ''Bookmarks Bar''] = [''Other Bookmarks'']"
  using canonical_root_only [of "[''Other Bookmarks'', ''Bookmarks Bar'']"]
  by (simp add: CHROME_ROOT_NAMES_def)

lemma dedup_from_leaf_stop:
  "distinct final \<Longrightarrow>
   \<exists>kept rest. xs = kept @ rest
      \<and> dedup_from_leaf xs final (set final) = rev kept @ final
      \<and> distinct (rev kept @ final)
      \<and> (rest \<noteq> [] \<longrightarrow> hd rest \<in> set (rev kept @ final))"
proof (induction xs arbitrary: final)
  case Nil
  then show ?case by simp
next
  case (Cons x xs)
  show ?case
  proof (cases "x \<in> set final")
    case True
    have "x # xs = [] @ (x # xs)" by simp
    with True Cons.prems show ?thesis by fastforce
  next
    case False
    with Cons.prems have "distinct (x # final)" by simp
    from Cons.IH [OF this] obtain kept rest where
      k: "xs = kept @ rest"
         "dedup_from_leaf xs (x # final) (set (x # final)) = rev kept @ x # final"
         "distinct (rev kept @ x # final)"
         "rest \<noteq> [] \<longrightarrow> hd rest \<in> set (rev kept @ x # final)"
      by blast
    have "x # xs = (x # kept) @ rest" using k(1) by simp
    moreover have "dedup_from_leaf (x # xs) final (set final) = rev (x # kept) @ final"
      using False k(2) by simp
    moreover have "distinct (rev (x # kept) @ final)" using k(3) by simp
    moreover have "rest \<noteq> [] \<longrightarrow> hd rest \<in> set (rev (x # kept) @ final)" using k(4) by simp
    ultimately show ?thesis by blast
  qed
qed

lemma canonical_user_suffix:
  assumes "u \<noteq> []" and "hd u \<notin> CHROME_ROOT_NAMES"
  shows "\<exists>dropped. u = dropped @ get_canonical_path_segments u
           \<and> distinct (get_canonical_path_segments u)
           \<and> get_canonical_path_segments u \<noteq> []
           \<and> (dropped \<noteq> [] \<longrightarrow> last dropped \<in> set (get_canonical_path_segments u))"
proof -
  have "\<exists>kept rest. rev u = kept @ rest
           \<and> dedup_from_leaf (rev u) [] {} = rev kept
           \<and> distinct (rev kept)
           \<and> (rest \<noteq> [] \<longrightarrow> hd rest \<in> set (rev kept))"
    using dedup_from_leaf_stop [of "[]" "rev u"] by simp
  then obtain kept rest where
    k: "rev u = kept @ rest"
       "dedup_from_leaf (rev u) [] {} = rev kept"
       "distinct (rev kept)"
       "rest \<noteq> [] \<longrightarrow> hd rest \<in> set (rev kept)"
    by blast
  have c: "get_canonical_path_segments u = rev kept"
    using assms k(2) by (simp add: canonical_user_start)
  from k(1) have u: "u = rev rest @ rev kept"
    by (metis rev_append rev_rev_ident)
  have ne: "rev kept \<noteq> []"
    using dedup_from_leaf_rev_suffix [of u] assms(1) k(2) by auto
  have "rev rest \<noteq> [] \<longrightarrow> last (rev rest) \<in> set (rev kept)"
    using k(4) by (cases rest) auto
  with c u k(3) ne show ?thesis by metis
qed

text \<open>
  Claim C5. On a path \<open>u\<close> of user-defined names the scan from the leaf stops at the first
  name already placed: the canonical path is a suffix of \<open>u\<close>, non-empty and without a
  repeated name, and when names were dropped, the nearest dropped name is one that had
  been placed (it and every more distant ancestor are discarded). For user-defined names
  \<open>A\<close> and \<open>B\<close>, distinct from each other, \<open>[A, B, A]\<close> gives \<open>[B, A]\<close>, \<open>[A, B, A, B]\<close>
  gives \<open>[A, B]\<close>, and \<open>[A, A]\<close> gives \<open>[A]\<close>.
\<close>

theorem canonical_repeat_collapse:
  assumes "A \<notin> CHROME_ROOT_NAMES" and "B \<notin> CHROME_ROOT_NAMES" and "A \<noteq> B"
    and "u \<noteq> []" and "set u \<inter> CHROME_ROOT_NAMES = {}"
  shows "(\<exists>dropped. u = dropped @ get_canonical_path_segments u
            \<and> distinct (get_canonical_path_segments u)
            \<and> get_canonical_path_segments u \<noteq> []
            \<and> (dropped \<noteq> [] \<longrightarrow> last dropped \<in> set (get_canonical_path_segments u)))
       \<and> get_canonical_path_segments [A, B, A] = [B, A]
       \<and> get_canonical_path_segments [A, B, A, B] = [A, B]
       \<and> get_canonical_path_segments [A, A] = [A]"
proof -
  from assms(4,5) have "hd u \<notin> CHROME_ROOT_NAMES"
    by (cases u) auto
  from canonical_user_suffix [OF assms(4) this] assms(1-3) show ?thesis
    by (simp add: get_canonical_path_segments_def)
qed

theorem canonical_repeat_collapse_witness:
  "''Work'' \<notin> CHROME_ROOT_NAMES \<and> ''Design'' \<notin> CHROME_ROOT_NAMES \<and> ''Work'' \<noteq> ''Design''
   \<and> [''Code'', ''Work'', ''Work''] \<noteq> []
   \<and> set [''Code'', ''Work'', ''Work''] \<inter> CHROME_ROOT_NAMES = {}
   \<and> get_canonical_path_segments [''Code'', ''Work'', ''Work''] = [''Work'']
   \<and> [''Code'', ''Work'', ''Work'']
       = [''Code'', ''Work''] @ get_canonical_path_segments [''Code'', ''Work'', ''Work'']
   \<and> last [''Code'', ''Work''] \<in> set (get_canonical_path_segments [''Code'', ''Work'', ''Work''])
   \<and> get_canonical_path_segments [''Work'', ''Design'', ''Work''] = [''Design'', ''Work'']
   \<and> get_canonical_path_segments [''Work'', ''Design'', ''Work'', ''Design'']
       = [''Work'', ''Design'']
   \<and> get_canonical_path_segments [''Work'', ''Work''] = [''Work'']"
  using canonical_repeat_collapse [of "''Work''" "''Design''" "[''Code'', ''Work'', ''Work'']"]
  by (simp add: CHROME_ROOT_NAMES_def get_canonical_path_segments_def)

text \<open>
  Claim C4, as stated, fails: a root-marker name that occurs after a user-defined
  segment is kept as an ordinary name, so a canonical path can begin with a root-marker
  name, and canonicalizing it again drops that name.
\<close>

theorem canonical_idempotent_counterexample:
  "get_canonical_path_segments
     (get_canonical_path_segments [''Bookmarks Bar'', ''Work'', ''Bookmarks Bar'', ''Work''])
   \<noteq> get_canonical_path_segments [''Bookmarks Bar'', ''Work'', ''Bookmarks Bar'', ''Work'']"
  by (simp add: get_canonical_path_segments_def CHROME_ROOT_NAMES_def)

text \<open>
  Claim C4, amended. For a non-empty path \<open>p\<close>, canonicalizing the canonical path of \<open>p\<close>
  returns it unchanged exactly when that canonical path is a single segment or does not
  begin with a root-marker name.
\<close>

theorem canonical_idempotent_iff:
  assumes "p \<noteq> []"
  shows "get_canonical_path_segments (get_canonical_path_segments p)
           = get_canonical_path_segments p
     \<longleftrightarrow> (length (get_canonical_path_segments p) = 1
          \<or> hd (get_canonical_path_segments p) \<notin> CHROME_ROOT_NAMES)"
proof -
  have ne: "get_canonical_path_segments p \<noteq> []"
    using assms canonical_cases [of p] dedup_from_leaf_rev_suffix by (metis list.distinct(1))
  have dist: "distinct (get_canonical_path_segments p)"
    using canonical_cases [OF assms] dedup_from_leaf_rev_suffix
    by (metis distinct.simps(2) distinct_singleton)
  from ne dist show ?thesis by (rule canonical_again)
qed

theorem canonical_idempotent_iff_witness:
  "[''Bookmarks Bar'', ''Projects'', ''Design'', ''Projects''] \<noteq> []
   \<and> get_canonical_path_segments
       (get_canonical_path_segments [''Bookmarks Bar'', ''Projects'', ''Design'', ''Projects''])
     = get_canonical_path_segments [''Bookmarks Bar'', ''Projects'', ''Design'', ''Projects'']
   \<and> hd (get_canonical_path_segments [''Bookmarks Bar'', ''Projects'', ''Design'', ''Projects''])
       \<notin> CHROME_ROOT_NAMES"
proof -
  have c: "get_canonical_path_segments [''Bookmarks Bar'', ''Projects'', ''Design'', ''Projects'']
             = [''Design'', ''Projects'']"
    by (simp add: get_canonical_path_segments_def CHROME_ROOT_NAMES_def)
  have h: "hd [''Design'', ''Projects''] \<notin> CHROME_ROOT_NAMES"
    by (simp add: CHROME_ROOT_NAMES_def)
  from canonical_idempotent_iff [of "[''Bookmarks Bar'', ''Projects'', ''Design'', ''Projects'']"]
  show ?thesis using c h by simp
qed

section \<open>Properties of the tree builder\<close>

lemma erase_guids_append: "erase_guids (xs @ ys) = erase_guids xs @ erase_guids ys"
  by (induction xs) auto

lemma merge_items_folder:
  "merge_items d \<Longrightarrow> (k, v) \<in> set d \<Longrightarrow> k \<noteq> ''_bookmarks'' \<Longrightarrow> merge_node v"
  by (induction d) (auto split: if_splits)

lemma merge_items_direct:
  "merge_items d \<Longrightarrow> (''_bookmarks'', v) \<in> set d \<Longrightarrow> \<exists>bs. v = MList bs"
  by (induction d) (auto split: if_splits merged.splits)

lemma no_bookmarks_key:
  "map_of d ''_bookmarks'' = None \<Longrightarrow> (k, v) \<in> set d \<Longrightarrow> k \<noteq> ''_bookmarks''"
  by (induction d) (auto split: if_splits)

lemma map_insort_key_fst:
  "map f (insort_key (\<lambda>x. k (f x)) a xs) = insort_key k (f a) (map f xs)"
  by (induction xs) auto

lemma map_sort_key_fst:
  "map f (sort_key (\<lambda>x. k (f x)) xs) = sort_key k (map f xs)"
  by (induction xs) (auto simp: map_insort_key_fst)

text \<open>
  The source sorts the keys and looks each one up; on a dictionary, whose keys are unique,
  that is the list of items sorted by key which the model iterates over.
\<close>

lemma lookup_sorted_keys:
  assumes "distinct (map fst d)"
  shows "map (\<lambda>k. (k, the (map_of d k))) (sort_key lower (map fst d))
           = sort_key (\<lambda>kv. lower (fst kv)) d"
proof -
  have "map (\<lambda>k. (k, the (map_of d k))) (map fst xs) = xs" if "set xs \<subseteq> set d" for xs
    using that assms by (induction xs) auto
  from this [of "sort_key (\<lambda>kv. lower (fst kv)) d"] show ?thesis
    by (simp add: map_sort_key_fst)
qed

lemma build_outline:
  "outline (build_chrome_json_structure lower uuid4 m calls)
     = outline (build_chrome_json_structure lower uuid4' m calls2)"
  "outline (build_folders lower uuid4 kvs calls) = outline (build_folders lower uuid4' kvs calls2)"
proof (induction lower uuid4 m calls and lower uuid4 kvs calls arbitrary: calls2 and calls2
       rule: build_chrome_json_structure_build_folders.induct)
  case (1 lower uuid4 bookmarks calls)
  show ?case by (simp add: outline_def)
next
  case (2 lower uuid4 collected_node_dict calls)
  show ?case
    using 2 [OF refl refl, of calls2]
    by (auto simp: outline_def erase_guids_append split: sum.splits merged.splits)
next
  case (3 lower uuid4 calls)
  show ?case by (simp add: outline_def)
next
  case (4 lower uuid4 folder_name folder_content rest calls)
  show ?case
  proof (cases "build_chrome_json_structure lower uuid4 folder_content calls")
    case (Inl e)
    with 4(1) [of calls2] show ?thesis
      by (auto simp: outline_def split: sum.splits)
  next
    case (Inr p)
    obtain fc c1 where p: "p = (fc, c1)" by (cases p)
    from 4(1) [of calls2] Inr p obtain fc' c1' where
      b2: "build_chrome_json_structure lower uuid4' folder_content calls2 = Inr (fc', c1')"
      and e2: "erase_guids fc' = erase_guids fc"
      by (auto simp: outline_def split: sum.splits)
    from 4(2) [OF Inr p [symmetric], of "Suc c1'"]
    show ?thesis using Inr p b2 e2
      by (auto simp: outline_def folder_node_def split: sum.splits)
  qed
qed


lemma folder_items_merge_node:
  assumes "merge_items d"
  shows "list_all (\<lambda>kv. merge_node (snd kv))
           (sort_key (\<lambda>kv. lower (fst kv))
              (case map_of d ''_bookmarks'' of
                 Some v \<Rightarrow> filter (\<lambda>kv. fst kv \<noteq> ''_bookmarks'') d
               | None \<Rightarrow> d))"
proof (cases "map_of d ''_bookmarks''")
  case None
  have "merge_node (snd kv)" if "kv \<in> set d" for kv
    using that no_bookmarks_key [OF None, of "fst kv" "snd kv"]
      merge_items_folder [OF assms, of "fst kv" "snd kv"] by simp
  with None show ?thesis by (simp add: list_all_iff)
next
  case (Some v)
  have "merge_node (snd kv)" if "kv \<in> set d" "fst kv \<noteq> ''_bookmarks''" for kv
    using that merge_items_folder [OF assms, of "fst kv" "snd kv"] by simp
  with Some show ?thesis by (simp add: list_all_iff)
qed

lemma folder_items_names:
  "map fst (sort_key (\<lambda>kv. lower (fst kv))
              (case map_of d ''_bookmarks'' of
                 Some v \<Rightarrow> filter (\<lambda>kv. fst kv \<noteq> ''_bookmarks'') d
               | None \<Rightarrow> d))
   = sort_key lower (folder_names (MDict d))"
proof (cases "map_of d ''_bookmarks''")
  case None
  have "k \<noteq> ''_bookmarks''" if "k \<in> set (map fst d)" for k
    using that no_bookmarks_key [OF None] by auto
  then have "filter (\<lambda>k. k \<noteq> ''_bookmarks'') (map fst d) = map fst d"
    by (simp add: filter_id_conv)
  with None show ?thesis by (simp add: map_sort_key_fst)
next
  case (Some v)
  have "map fst (filter (\<lambda>kv. fst kv \<noteq> ''_bookmarks'') d)
          = filter (\<lambda>k. k \<noteq> ''_bookmarks'') (map fst d)"
    by (simp add: filter_map comp_def)
  with Some show ?thesis by (simp add: map_sort_key_fst)
qed

lemma direct_of_merge_items:
  "merge_items d \<Longrightarrow> map_of d ''_bookmarks'' = Some v \<Longrightarrow> \<exists>bs. v = MList bs"
  using merge_items_direct map_of_SomeD by fast

lemma build_shape:
  "merge_node m \<Longrightarrow>
     \<exists>folders calls'.
        build_chrome_json_structure lower uuid4 m calls
          = Inr (folders @ map bookmark_node
                             (sort_key (\<lambda>x. lower (item_name x)) (direct_entries m)),
                 calls')
      \<and> list_all (\<lambda>n. ntype n = Some ''folder'') folders
      \<and> map nname folders = map Some (sort_key lower (folder_names m))"
  "list_all (\<lambda>kv. merge_node (snd kv)) kvs \<Longrightarrow>
     \<exists>folders calls'.
        build_folders lower uuid4 kvs calls = Inr (folders, calls')
      \<and> list_all (\<lambda>n. ntype n = Some ''folder'') folders
      \<and> map nname folders = map (\<lambda>kv. Some (fst kv)) kvs"
proof (induction lower uuid4 m calls and lower uuid4 kvs calls
       rule: build_chrome_json_structure_build_folders.induct)
  case (1 lower uuid4 bookmarks calls)
  then show ?case by simp
next
  case (2 lower uuid4 d calls)
  from 2(2) have items: "merge_items d" by simp
  from 2(1) [OF refl refl folder_items_merge_node [OF items]]
  obtain folders calls' where
    f: "build_folders lower uuid4
          (sort_key (\<lambda>kv. lower (fst kv))
             (case map_of d ''_bookmarks'' of
                Some v \<Rightarrow> filter (\<lambda>kv. fst kv \<noteq> ''_bookmarks'') d
              | None \<Rightarrow> d)) calls = Inr (folders, calls')"
    and t: "list_all (\<lambda>n. ntype n = Some ''folder'') folders"
    and n: "map nname folders
             = map (\<lambda>kv. Some (fst kv))
                 (sort_key (\<lambda>kv. lower (fst kv))
                    (case map_of d ''_bookmarks'' of
                       Some v \<Rightarrow> filter (\<lambda>kv. fst kv \<noteq> ''_bookmarks'') d
                     | None \<Rightarrow> d))"
    by blast
  from n have n': "map nname folders = map Some (sort_key lower (folder_names (MDict d)))"
    using folder_items_names [of lower d, symmetric] by (simp add: comp_def)
  have "build_chrome_json_structure lower uuid4 (MDict d) calls
          = Inr (folders @ map bookmark_node
                   (sort_key (\<lambda>x. lower (item_name x)) (direct_entries (MDict d))), calls')"
    using f direct_of_merge_items [OF items]
    by (auto split: option.splits merged.splits)
  with t n' show ?case by blast
next
  case (3 lower uuid4 calls)
  then show ?case by simp
next
  case (4 lower uuid4 folder_name folder_content rest calls)
  from 4(3) have c: "merge_node folder_content"
    and r: "list_all (\<lambda>kv. merge_node (snd kv)) rest" by simp_all
  from 4(1) [OF c] obtain fc c1 where
    b: "build_chrome_json_structure lower uuid4 folder_content calls = Inr (fc, c1)"
    by blast
  from 4(2) [OF b refl r] obtain folders calls' where
    f: "build_folders lower uuid4 rest (Suc c1) = Inr (folders, calls')"
    and t: "list_all (\<lambda>n. ntype n = Some ''folder'') folders"
    and n: "map nname folders = map (\<lambda>kv. Some (fst kv)) rest"
    by blast
  from b f t n show ?case by (simp add: folder_node_def)
qed


lemma name_key_of_names:
  "map nname ns = map Some names \<Longrightarrow> map (name_key lower) ns = map lower names"
  by (induction ns arbitrary: names) (auto simp: name_key_def)

text \<open>
  Claim C8. For every node of the merge structure, and whatever function \<^verbatim>\<open>str.lower\<close>
  is, the builder returns a children list made of the folder records followed by the entry
  records: the folder records carry the folder keys sorted by lower-cased name, the entry
  records are the direct entries sorted by lower-cased name, and a second build, whatever
  identifiers it draws, returns the same list up to the \<^verbatim>\<open>guid\<close> fields.
\<close>

theorem build_folders_before_entries:
  assumes "merge_node m"
  shows "\<exists>folders entries calls'.
      build_chrome_json_structure lower uuid4 m calls = Inr (folders @ entries, calls')
    \<and> list_all (\<lambda>n. ntype n = Some ''folder'') folders
    \<and> map nname folders = map Some (sort_key lower (folder_names m))
    \<and> sorted (map (name_key lower) folders)
    \<and> entries = map bookmark_node (sort_key (\<lambda>x. lower (item_name x)) (direct_entries m))
    \<and> list_all (\<lambda>n. ntype n = Some ''url'') entries
    \<and> sorted (map (name_key lower) entries)
    \<and> outline (build_chrome_json_structure lower uuid4' m calls2)
        = Inr (erase_guids (folders @ entries))"
proof -
  define entries where
    "entries = map bookmark_node (sort_key (\<lambda>x. lower (item_name x)) (direct_entries m))"
  from build_shape(1) [OF assms, of lower uuid4 calls] obtain folders calls' where
    b: "build_chrome_json_structure lower uuid4 m calls = Inr (folders @ entries, calls')"
    and t: "list_all (\<lambda>n. ntype n = Some ''folder'') folders"
    and n: "map nname folders = map Some (sort_key lower (folder_names m))"
    unfolding entries_def by blast
  have sf: "sorted (map (name_key lower) folders)"
    using name_key_of_names [OF n] by simp
  have te: "list_all (\<lambda>n. ntype n = Some ''url'') entries"
    by (simp add: entries_def list_all_iff bookmark_node_def)
  have "map (name_key lower) entries
          = map (\<lambda>x. lower (item_name x)) (sort_key (\<lambda>x. lower (item_name x)) (direct_entries m))"
    by (simp add: entries_def name_key_def bookmark_node_def comp_def)
  then have se: "sorted (map (name_key lower) entries)" by simp
  have "outline (build_chrome_json_structure lower uuid4' m calls2)
          = outline (build_chrome_json_structure lower uuid4 m calls)"
    by (rule build_outline(1))
  with b have o: "outline (build_chrome_json_structure lower uuid4' m calls2)
                    = Inr (erase_guids (folders @ entries))"
    by (simp add: outline_def)
  from b t n sf te se o entries_def show ?thesis by blast
qed

theorem build_folders_before_entries_witness:
  "merge_node sample_merge_node
   \<and> build_chrome_json_structure ascii_lower sample_uuid4 sample_merge_node 0
       = Inr ([folder_node ''a'' [bookmark_node (sample_item ''in a'' ''http://a'')]
                 (sample_uuid4 0),
               folder_node ''B''
                 [folder_node ''C'' [bookmark_node (sample_item ''in C'' ''http://c'')]
                    (sample_uuid4 1),
                  bookmark_node (sample_item ''in B'' ''http://b'')]
                 (sample_uuid4 2)]
              @ [bookmark_node (sample_item ''alpha'' ''http://2''),
                 bookmark_node (sample_item ''Beta'' ''http://1'')], 3)
   \<and> sort_key ascii_lower (folder_names sample_merge_node) = [''a'', ''B'']
   \<and> sort_key (\<lambda>x. ascii_lower (item_name x)) (direct_entries sample_merge_node)
       = [sample_item ''alpha'' ''http://2'', sample_item ''Beta'' ''http://1'']"
proof -
  have m: "merge_node sample_merge_node"
    by (simp add: sample_merge_node_def)
  from build_folders_before_entries [OF m, of ascii_lower sample_uuid4 0 sample_uuid4 0] m
  show ?thesis
    by (simp add: sample_merge_node_def sample_item_def ascii_lower_def ascii_lower_char_def
          bookmark_node_def folder_node_def numeral_3_eq_3 numeral_2_eq_2)
qed

section \<open>Properties of the run\<close>

lemmas eval_defs =
  reorganize_def initial_state_def CHROME_ROOT_NAMES_def MAX_RECURSION_DEPTH_def
  startswith_def get_canonical_path_segments_def ascii_lower_def ascii_lower_char_def clear_root_def
  DESTINATION_ROOT_NAME_def bookmark_node_def folder_node_def folder_def url_node_def

lemma map_of_clear_root_None:
  "map_of roots k = None \<Longrightarrow> map_of (map clear_root roots) k = None"
  by (induction roots) (auto simp: clear_root_def)

text \<open>
  Claim C10. When the traversal of the root-marker containers leaves the merge structure
  empty, the run stops with the document in memory exactly as loaded and without calling
  \<^verbatim>\<open>save_bookmarks\<close>: no children list is cleared and the destination is not rewritten.
\<close>

theorem nothing_collected_unchanged:
  assumes "doc_roots bookmark_data = Some roots"
    and "collect_roots uuid4 roots initial_state = Inr st"
    and "collected_bookmarks st = MDict []"
  shows "run_memory (reorganize lower uuid4 bookmark_data) = bookmark_data
       \<and> run_saved (reorganize lower uuid4 bookmark_data) = None
       \<and> run_status (reorganize lower uuid4 bookmark_data)
           = (if roots = [] then NoRootsSection else NothingCollected)"
  using assms by (simp add: reorganize_def)

theorem nothing_collected_unchanged_witness:
  "\<exists>st. doc_roots nothing_to_collect_document \<noteq> None
      \<and> collect_roots sample_uuid4 (the (doc_roots nothing_to_collect_document)) initial_state = Inr st
      \<and> collected_bookmarks st = MDict []
      \<and> run_memory (reorganize ascii_lower sample_uuid4 nothing_to_collect_document) = nothing_to_collect_document
      \<and> run_saved (reorganize ascii_lower sample_uuid4 nothing_to_collect_document) = None
      \<and> run_status (reorganize ascii_lower sample_uuid4 nothing_to_collect_document) = NothingCollected"
proof -
  have r: "doc_roots nothing_to_collect_document
             = Some (the (doc_roots nothing_to_collect_document))"
    by (simp add: nothing_to_collect_document_def)
  have c: "collect_roots sample_uuid4 (the (doc_roots nothing_to_collect_document)) initial_state
             = Inr initial_state"
    by (simp add: nothing_to_collect_document_def eval_defs)
  have e: "collected_bookmarks initial_state = MDict []"
    by (simp add: initial_state_def)
  have n: "the (doc_roots nothing_to_collect_document) \<noteq> []"
    by (simp add: nothing_to_collect_document_def)
  from nothing_collected_unchanged [OF r c e] n c e show ?thesis
    by (intro exI [of _ initial_state]) (simp add: nothing_to_collect_document_def)
qed

text \<open>
  Claim C3, as stated, fails: the source clears the root-marker containers before it looks
  for the destination, so when the destination is absent and a bookmark was collected, the
  document in memory has lost the children of its root-marker containers by the time the
  error is reported.
\<close>

theorem destination_absent_memory_counterexample:
  "\<not> destination_present no_destination_document
   \<and> run_memory (reorganize ascii_lower sample_uuid4 no_destination_document) \<noteq> no_destination_document
   \<and> run_memory (reorganize ascii_lower sample_uuid4 no_destination_document)
       = \<lparr>doc_roots = Some [(''Bookmarks Bar'', folder None [])], doc_other_keys = []\<rparr>"
  by (simp add: no_destination_document_def destination_present_def eval_defs)

lemma collect_roots_Nil_initial:
  "collect_roots uuid4 [] initial_state = Inr st \<Longrightarrow> collected_bookmarks st = MDict []"
  by (auto simp: initial_state_def)

text \<open>
  Claim C3, amended. When the destination container is absent from \<^verbatim>\<open>roots\<close>, the run
  never calls \<^verbatim>\<open>save_bookmarks\<close> and never ends in success. When a bookmark was
  collected and the tree was built, the run ends with the destination-not-found error, and
  the document in memory is then the loaded one with the root-marker containers cleared.
  A run that ends with that error always leaves the document in memory in that state; a
  run that ends earlier (no data, no roots, nothing collected) leaves it as loaded.
\<close>

theorem destination_absent_not_saved:
  assumes "\<not> destination_present bookmark_data"
  shows "run_saved (reorganize lower uuid4 bookmark_data) = None
       \<and> run_status (reorganize lower uuid4 bookmark_data) \<noteq> SaveCalled
       \<and> (\<forall>roots st children_list calls.
             doc_roots bookmark_data = Some roots
             \<and> collect_roots uuid4 roots initial_state = Inr st
             \<and> collected_bookmarks st \<noteq> MDict []
             \<and> build_chrome_json_structure lower uuid4 (collected_bookmarks st) (uuid_calls st)
                 = Inr (children_list, calls)
             \<longrightarrow> run_status (reorganize lower uuid4 bookmark_data) = DestinationNotFound
               \<and> run_memory (reorganize lower uuid4 bookmark_data)
                   = bookmark_data\<lparr>doc_roots := Some (map clear_root roots)\<rparr>)
       \<and> (run_status (reorganize lower uuid4 bookmark_data) = DestinationNotFound \<longrightarrow>
            run_memory (reorganize lower uuid4 bookmark_data)
              = bookmark_data\<lparr>doc_roots := map_option (map clear_root) (doc_roots bookmark_data)\<rparr>)
       \<and> (run_status (reorganize lower uuid4 bookmark_data)
             \<in> {NoData, NoRootsSection, NothingCollected} \<longrightarrow>
            run_memory (reorganize lower uuid4 bookmark_data) = bookmark_data)"
proof -
  have main: "run_status (reorganize lower uuid4 bookmark_data) = DestinationNotFound
               \<and> run_memory (reorganize lower uuid4 bookmark_data)
                   = bookmark_data\<lparr>doc_roots := Some (map clear_root roots)\<rparr>"
    if r: "doc_roots bookmark_data = Some roots"
      and c: "collect_roots uuid4 roots initial_state = Inr st"
      and n: "collected_bookmarks st \<noteq> MDict []"
      and b: "build_chrome_json_structure lower uuid4 (collected_bookmarks st) (uuid_calls st)
                = Inr (children_list, calls)"
    for roots st children_list calls
  proof -
    from c n have ne: "roots \<noteq> []"
      using collect_roots_Nil_initial by blast
    from assms r have "map_of roots DESTINATION_ROOT_NAME = None"
      by (simp add: destination_present_def)
    then have "map_of (map clear_root roots) DESTINATION_ROOT_NAME = None"
      by (rule map_of_clear_root_None)
    with r c n b ne show ?thesis
      by (simp add: reorganize_def)
  qed
  have rest: "run_saved (reorganize lower uuid4 bookmark_data) = None
       \<and> run_status (reorganize lower uuid4 bookmark_data) \<noteq> SaveCalled
       \<and> (run_status (reorganize lower uuid4 bookmark_data) = DestinationNotFound \<longrightarrow>
            run_memory (reorganize lower uuid4 bookmark_data)
              = bookmark_data\<lparr>doc_roots := map_option (map clear_root) (doc_roots bookmark_data)\<rparr>)
       \<and> (run_status (reorganize lower uuid4 bookmark_data)
             \<in> {NoData, NoRootsSection, NothingCollected} \<longrightarrow>
            run_memory (reorganize lower uuid4 bookmark_data) = bookmark_data)"
    using assms
    by (auto simp: reorganize_def destination_present_def map_of_clear_root_None Let_def
             split: option.splits sum.splits prod.splits)
  from main rest show ?thesis by blast
qed


theorem destination_absent_not_saved_witness:
  "\<not> destination_present no_destination_document
   \<and> doc_roots no_destination_document
       = Some [(''Bookmarks Bar'', folder None [url_node ''x'' ''http://x''])]
   \<and> collect_roots sample_uuid4 [(''Bookmarks Bar'', folder None [url_node ''x'' ''http://x''])]
         initial_state
       = Inr \<lparr>collected_bookmarks =
                MDict [(''Bookmarks Bar'',
                        MDict [(''_bookmarks'',
                                MList [\<lparr>item_name = ''x'', item_url = ''http://x'',
                                         item_guid = sample_uuid4 0,
                                         item_date_added = ''0''\<rparr>])])],
              seen_urls = {''http://x''}, uuid_calls = 1\<rparr>
   \<and> build_chrome_json_structure ascii_lower sample_uuid4
         (MDict [(''Bookmarks Bar'',
                  MDict [(''_bookmarks'',
                          MList [\<lparr>item_name = ''x'', item_url = ''http://x'',
                                   item_guid = sample_uuid4 0, item_date_added = ''0''\<rparr>])])])
         1
       = Inr ([folder_node ''Bookmarks Bar''
                 [bookmark_node \<lparr>item_name = ''x'', item_url = ''http://x'',
                     item_guid = sample_uuid4 0, item_date_added = ''0''\<rparr>]
                 (sample_uuid4 1)], 2)
   \<and> run_saved (reorganize ascii_lower sample_uuid4 no_destination_document) = None
   \<and> run_status (reorganize ascii_lower sample_uuid4 no_destination_document)
       = DestinationNotFound
   \<and> run_memory (reorganize ascii_lower sample_uuid4 no_destination_document)
       = \<lparr>doc_roots = Some [(''Bookmarks Bar'', folder None [])], doc_other_keys = []\<rparr>
   \<and> \<not> destination_present empty_bar_document
   \<and> run_saved (reorganize ascii_lower sample_uuid4 empty_bar_document) = None
   \<and> run_status (reorganize ascii_lower sample_uuid4 empty_bar_document) = NothingCollected
   \<and> run_memory (reorganize ascii_lower sample_uuid4 empty_bar_document) = empty_bar_document"
proof -
  let ?roots = "[(''Bookmarks Bar'', folder None [url_node ''x'' ''http://x''])]"
  let ?item = "\<lparr>item_name = ''x'', item_url = ''http://x'', item_guid = sample_uuid4 0,
                 item_date_added = ''0''\<rparr>"
  let ?collected = "MDict [(''Bookmarks Bar'', MDict [(''_bookmarks'', MList [?item])])]"
  let ?st = "\<lparr>collected_bookmarks = ?collected, seen_urls = {''http://x''}, uuid_calls = 1\<rparr>"
  let ?tree = "[folder_node ''Bookmarks Bar'' [bookmark_node ?item] (sample_uuid4 1)]"
  have a: "\<not> destination_present no_destination_document"
    by (simp add: no_destination_document_def destination_present_def DESTINATION_ROOT_NAME_def
          folder_def url_node_def)
  have r: "doc_roots no_destination_document = Some ?roots"
    by (simp add: no_destination_document_def)
  have c: "collect_roots sample_uuid4 ?roots initial_state = Inr ?st"
    by (simp add: eval_defs)
  have n: "collected_bookmarks ?st \<noteq> MDict []" by simp
  have b: "build_chrome_json_structure ascii_lower sample_uuid4 ?collected 1 = Inr (?tree, 2)"
    by (simp add: eval_defs numeral_2_eq_2)
  have b': "build_chrome_json_structure ascii_lower sample_uuid4 (collected_bookmarks ?st)
              (uuid_calls ?st) = Inr (?tree, 2)"
    using b by simp
  have e: "\<not> destination_present empty_bar_document"
    by (simp add: empty_bar_document_def destination_present_def DESTINATION_ROOT_NAME_def
          folder_def)
  have t: "run_status (reorganize ascii_lower sample_uuid4 empty_bar_document) = NothingCollected"
    by (simp add: empty_bar_document_def eval_defs)
  note first = destination_absent_not_saved [OF a, of ascii_lower sample_uuid4]
  note second = destination_absent_not_saved [OF e, of ascii_lower sample_uuid4]
  from first r c n b' have
    "run_status (reorganize ascii_lower sample_uuid4 no_destination_document)
       = DestinationNotFound
     \<and> run_memory (reorganize ascii_lower sample_uuid4 no_destination_document)
         = no_destination_document\<lparr>doc_roots := Some (map clear_root ?roots)\<rparr>"
    by blast
  moreover have "no_destination_document\<lparr>doc_roots := Some (map clear_root ?roots)\<rparr>
                   = \<lparr>doc_roots = Some [(''Bookmarks Bar'', folder None [])],
                      doc_other_keys = []\<rparr>"
    by (simp add: no_destination_document_def clear_root_def folder_def url_node_def
          CHROME_ROOT_NAMES_def)
  ultimately show ?thesis using first second a r c b e t by simp
qed


text \<open>
  Claim C1, as stated, fails: the set of seen URLs is shared by all root-marker
  containers, so the second occurrence of \<^verbatim>\<open>http://x\<close>, under Other Bookmarks, is dropped.
  The destination tree does not hold two entries for that URL.
\<close>

theorem basic_merge_counterexample:
  "count_list
     (map nurl (nodes_entries
        (the (destination_children
           (run_memory (reorganize ascii_lower sample_uuid4
              (basic_merge_document ''http://x'' ''first'' ''second'')))))))
     (Some ''http://x'') \<noteq> 2"
  by (simp add: basic_merge_document_def destination_children_def Let_def eval_defs)

text \<open>
  Claim C1, amended. For any collectable URL filed once under Bookmarks Bar > Work > A and
  again under Other Bookmarks > Work > A, the run succeeds and the destination tree is the
  folder Work holding the folder A holding one entry: the occurrence under Bookmarks Bar,
  which is traversed first. The root-marker name is not part of the canonical path.
\<close>

theorem basic_merge_one_entry:
  assumes "url \<noteq> []" and "\<not> startswith url ''javascript:''"
  shows "run_status (reorganize lower uuid4 (basic_merge_document url first_name second_name)) = SaveCalled
     \<and> destination_children
         (run_memory (reorganize lower uuid4 (basic_merge_document url first_name second_name)))
       = Some [folder_node ''Work''
                 [folder_node ''A''
                    [bookmark_node \<lparr>item_name = first_name, item_url = url,
                        item_guid = uuid4 0, item_date_added = ''0''\<rparr>]
                    (uuid4 1)]
                 (uuid4 2)]"
  using assms
  by (simp add: basic_merge_document_def destination_children_def Let_def numeral_2_eq_2
  startswith_def reorganize_def initial_state_def CHROME_ROOT_NAMES_def MAX_RECURSION_DEPTH_def
   get_canonical_path_segments_def ascii_lower_def ascii_lower_char_def clear_root_def
  DESTINATION_ROOT_NAME_def folder_def url_node_def)


theorem basic_merge_one_entry_witness:
  "''http://x'' \<noteq> [] \<and> \<not> startswith ''http://x'' ''javascript:''
   \<and> run_status (reorganize ascii_lower sample_uuid4 (basic_merge_document ''http://x'' ''first'' ''second''))
       = SaveCalled
   \<and> destination_children
         (run_memory (reorganize ascii_lower sample_uuid4
            (basic_merge_document ''http://x'' ''first'' ''second'')))
       = Some [folder_node ''Work''
                 [folder_node ''A''
                    [bookmark_node \<lparr>item_name = ''first'', item_url = ''http://x'',
                        item_guid = sample_uuid4 0, item_date_added = ''0''\<rparr>]
                    (sample_uuid4 1)]
                 (sample_uuid4 2)]"
  using basic_merge_one_entry [of "''http://x''" ascii_lower sample_uuid4 "''first''" "''second''"]
  by (simp add: startswith_def)

section \<open>Properties of the collector\<close>

lemma bookmarks_in_items_append:
  "bookmarks_in_items (xs @ ys) = bookmarks_in_items xs @ bookmarks_in_items ys"
  by (induction xs) auto

lemma distinct_keys_items_append:
  "distinct_keys_items (xs @ ys) \<longleftrightarrow> distinct_keys_items xs \<and> distinct_keys_items ys"
  by (induction xs) auto

lemma dict_set_new: "map_of d k = None \<Longrightarrow> dict_set d k v = d @ [(k, v)]"
  by (induction d) (auto split: if_splits)

lemma dict_set_keys:
  "map_of d k = Some v0 \<Longrightarrow> map fst (dict_set d k v) = map fst d"
  by (induction d) (auto split: if_splits)

lemma dict_set_bookmarks:
  "map_of d k = Some v0 \<Longrightarrow>
   mset (bookmarks_in_items (dict_set d k v)) + mset (bookmarks_in v0)
     = mset (bookmarks_in_items d) + mset (bookmarks_in v)"
  by (induction d) (auto split: if_splits)

lemma dict_set_distinct_keys_items:
  "distinct_keys_items d \<Longrightarrow> distinct_keys v \<Longrightarrow> distinct_keys_items (dict_set d k v)"
  by (induction d) auto

lemma map_of_distinct_keys:
  "distinct_keys_items d \<Longrightarrow> map_of d k = Some v \<Longrightarrow> distinct_keys v"
  by (induction d) (auto split: if_splits)

lemma map_of_None_key: "map_of d k = None \<Longrightarrow> k \<notin> set (map fst d)"
  by (induction d) (auto split: if_splits)

lemma place_bookmark_bookmarks:
  "place_bookmark path b m = Inr m' \<Longrightarrow>
   mset (bookmarks_in m') = add_mset b (mset (bookmarks_in m))"
proof (induction path b m arbitrary: m' rule: place_bookmark.induct)
  case (1 b d)
  show ?case
  proof (cases "map_of d ''_bookmarks''")
    case None
    with 1 show ?thesis by (auto simp: dict_set_new bookmarks_in_items_append)
  next
    case (Some v)
    with 1 obtain bs where v: "v = MList bs"
      and m': "m' = MDict (dict_set d ''_bookmarks'' (MList (bs @ [b])))"
      by (cases v) auto
    from dict_set_bookmarks [OF Some, of "MList (bs @ [b])"] v m' show ?thesis by simp
  qed
next
  case (2 segment rest b d)
  show ?case
  proof (cases "map_of d segment")
    case None
    with 2(3) obtain sub where
      s: "place_bookmark rest b (MDict []) = Inr sub"
      and m': "m' = MDict (dict_set d segment sub)"
      by (auto split: sum.splits)
    from 2(1) [OF None s] m' None show ?thesis
      by (simp add: dict_set_new bookmarks_in_items_append)
  next
    case (Some next_level)
    with 2(3) obtain sub where
      s: "place_bookmark rest b next_level = Inr sub"
      and m': "m' = MDict (dict_set d segment sub)"
      by (auto split: sum.splits)
    from 2(2) [OF Some s] have "mset (bookmarks_in sub) = add_mset b (mset (bookmarks_in next_level))" .
    with dict_set_bookmarks [OF Some, of sub] m' show ?thesis by simp
  qed
next
  case (3 path b bs)
  then show ?case by simp
qed

lemma place_bookmark_distinct_keys:
  "distinct_keys m \<Longrightarrow> place_bookmark path b m = Inr m' \<Longrightarrow> distinct_keys m'"
proof (induction path b m arbitrary: m' rule: place_bookmark.induct)
  case (1 b d)
  show ?case
  proof (cases "map_of d ''_bookmarks''")
    case None
    with 1 show ?thesis
      by (auto simp: dict_set_new distinct_keys_items_append dest: map_of_None_key)
  next
    case (Some v)
    with 1(2) obtain bs where v: "v = MList bs"
      and m': "m' = MDict (dict_set d ''_bookmarks'' (MList (bs @ [b])))"
      by (cases v) auto
    from 1(1) m' show ?thesis
      by (simp add: dict_set_keys [OF Some] dict_set_distinct_keys_items)
  qed
next
  case (2 segment rest b d)
  show ?case
  proof (cases "map_of d segment")
    case None
    with 2(4) obtain sub where
      s: "place_bookmark rest b (MDict []) = Inr sub"
      and m': "m' = MDict (dict_set d segment sub)"
      by (auto split: sum.splits)
    from 2(1) [OF None _ s] have "distinct_keys sub" by simp
    with 2(3) m' None show ?thesis
      by (auto simp: dict_set_new distinct_keys_items_append dest: map_of_None_key)
  next
    case (Some next_level)
    with 2(4) obtain sub where
      s: "place_bookmark rest b next_level = Inr sub"
      and m': "m' = MDict (dict_set d segment sub)"
      by (auto split: sum.splits)
    from 2(3) Some have "distinct_keys next_level"
      by (auto dest: map_of_distinct_keys)
    from 2(2) [OF Some this s] have "distinct_keys sub" .
    with 2(3) m' show ?thesis
      by (simp add: dict_set_keys [OF Some] dict_set_distinct_keys_items)
  qed
next
  case (3 path b bs)
  then show ?case by simp
qed


lemma first_seen_snoc_seen:
  "u \<in> dom (first_seen visited) \<Longrightarrow> fst (candidate n) = u \<Longrightarrow>
   first_seen (visited @ [n]) = first_seen visited"
  by (cases "candidate n") (auto simp: first_seen_def map_add_def fun_eq_iff split: option.splits)

lemma first_seen_snoc_new:
  "u \<notin> dom (first_seen visited) \<Longrightarrow> candidate n = (u, v) \<Longrightarrow>
   first_seen (visited @ [n]) = (first_seen visited)(u \<mapsto> v)"
  by (auto simp: first_seen_def map_add_def fun_eq_iff split: option.splits)

lemma collected_from_seen:
  assumes "collected_from visited st" and "fst (candidate n) \<in> seen_urls st"
  shows "collected_from (visited @ [n]) st"
  using assms first_seen_snoc_seen [of "fst (candidate n)" visited n]
  by (simp add: collected_from_def)

lemma collected_from_new:
  assumes inv: "collected_from visited st"
    and new: "item_url b \<notin> seen_urls st"
    and cand: "candidate n = (item_url b, item_name b, item_date_added b)"
    and place: "place_bookmark path b (collected_bookmarks st) = Inr m'"
  shows "collected_from (visited @ [n])
           \<lparr>collected_bookmarks = m', seen_urls = insert (item_url b) (seen_urls st),
            uuid_calls = calls\<rparr>"
proof -
  let ?B = "bookmarks_in (collected_bookmarks st)"
  from place_bookmark_bookmarks [OF place]
  have ms: "mset (bookmarks_in m') = mset (b # ?B)" by simp
  then have st: "set (bookmarks_in m') = insert b (set ?B)"
    by (metis list.simps(15) set_mset_mset)
  from ms have "mset (map item_url (bookmarks_in m')) = mset (map item_url (b # ?B))"
    by (metis mset_map)
  then have "distinct (map item_url (bookmarks_in m')) \<longleftrightarrow> distinct (map item_url (b # ?B))"
    by (rule mset_eq_imp_distinct_iff)
  with inv new have d: "distinct (map item_url (bookmarks_in m'))"
    by (simp add: collected_from_def)
  from inv new have nd: "item_url b \<notin> dom (first_seen visited)"
    by (simp add: collected_from_def)
  have fs: "first_seen (visited @ [n])
              = (first_seen visited)(item_url b \<mapsto> (item_name b, item_date_added b))"
    using first_seen_snoc_new [OF nd cand] .
  have k: "distinct_keys m'"
    using inv place by (auto simp: collected_from_def dest: place_bookmark_distinct_keys)
  have all: "\<forall>x \<in> set (bookmarks_in m').
               first_seen (visited @ [n]) (item_url x) = Some (item_name x, item_date_added x)"
  proof
    fix x assume "x \<in> set (bookmarks_in m')"
    with st have "x = b \<or> x \<in> set ?B" by simp
    then show "first_seen (visited @ [n]) (item_url x) = Some (item_name x, item_date_added x)"
    proof
      assume "x = b" then show ?thesis by (simp add: fs)
    next
      assume x: "x \<in> set ?B"
      with inv have "item_url x \<in> seen_urls st" by (simp add: collected_from_def)
      with new have "item_url x \<noteq> item_url b" by auto
      with inv x show ?thesis by (simp add: fs collected_from_def)
    qed
  qed
  from inv have "dom (first_seen (visited @ [n])) = insert (item_url b) (seen_urls st)"
    by (simp add: fs collected_from_def)
  with k d all st inv show ?thesis
    by (simp add: collected_from_def)
qed


lemma collect_invariant:
  "collect_bookmarks_recursively uuid4 n path st depth = Inr st' \<Longrightarrow>
   collected_from visited st \<Longrightarrow> collected_from (visited @ traversal n depth) st'"
  "collect_children uuid4 cs path st depth = Inr st' \<Longrightarrow>
   collected_from visited st \<Longrightarrow> collected_from (visited @ traversal_children cs depth) st'"
proof (induction uuid4 n path st depth and uuid4 cs path st depth
       arbitrary: st' visited and st' visited
       rule: collect_bookmarks_recursively_collect_children.induct)
  case (1 uuid4 node_type name url' guid date_added date_modified children path st depth)
  let ?n = "Node node_type name url' guid date_added date_modified children"
  show ?case
  proof (cases "depth > MAX_RECURSION_DEPTH")
    case True
    with 1(2,3) show ?thesis by simp
  next
    case deep: False
    show ?thesis
    proof (cases "node_type = Some ''url''")
      case True
      show ?thesis
      proof (cases url')
        case None
        with deep True 1(2,3) show ?thesis by simp
      next
        case (Some url)
        show ?thesis
        proof (cases "url = [] \<or> startswith url ''javascript:''")
          case bad: True
          with deep True Some 1(2,3) show ?thesis by auto
        next
          case ok: False
          with deep True Some have t: "traversal ?n depth = [?n]" by simp
          show ?thesis
          proof (cases "url \<in> seen_urls st")
            case seen: True
            with deep True Some ok 1(2) have "st' = st" by simp
            moreover from seen Some have "fst (candidate ?n) \<in> seen_urls st" by simp
            ultimately show ?thesis using t collected_from_seen [OF 1(3)] by simp
          next
            case new: False
            define b where
              "b = \<lparr>item_name = (case name of None \<Rightarrow> ''No Name'' | Some n \<Rightarrow> n),
                    item_url = url, item_guid = uuid4 (uuid_calls st),
                    item_date_added = (case date_added of None \<Rightarrow> ''0'' | Some d \<Rightarrow> d)\<rparr>"
            from deep True Some ok new 1(2) obtain m' where
              p: "place_bookmark (get_canonical_path_segments path) b (collected_bookmarks st)
                    = Inr m'"
              and st': "st' = \<lparr>collected_bookmarks = m', seen_urls = insert url (seen_urls st),
                              uuid_calls = Suc (uuid_calls st)\<rparr>"
              by (auto simp: b_def Let_def split: sum.splits)
            have u: "item_url b = url" by (simp add: b_def)
            have c: "candidate ?n = (item_url b, item_name b, item_date_added b)"
              by (simp add: b_def Some)
            from new u have n: "item_url b \<notin> seen_urls st" by simp
            from collected_from_new [OF 1(3) n c p, of "Suc (uuid_calls st)"] t st' u
            show ?thesis by simp
          qed
        qed
      qed
    next
      case nourl: False
      show ?thesis
      proof (cases "node_type = Some ''folder''")
        case False
        with deep nourl 1(2,3) show ?thesis by simp
      next
        case True
        show ?thesis
        proof (cases children)
          case None
          with deep nourl True 1(2,3) show ?thesis by simp
        next
          case (Some cs)
          with deep nourl True 1(2) 1(1) [OF deep nourl True refl Some _ 1(3)]
          show ?thesis by (simp add: Let_def)
        qed
      qed
    qed
  qed
next
  case (2 uuid4 path st depth)
  then show ?case by simp
next
  case (3 uuid4 child rest path st depth)
  from 3(3) obtain st1 where
    c: "collect_bookmarks_recursively uuid4 child path st depth = Inr st1"
    and r: "collect_children uuid4 rest path st1 depth = Inr st'"
    by (auto split: sum.splits)
  from 3(2) [OF c r 3(1) [OF c 3(4)]] show ?case by simp
qed


lemma collect_roots_invariant:
  "collect_roots uuid4 roots st = Inr st' \<Longrightarrow> collected_from visited st \<Longrightarrow>
   collected_from (visited @ traversal_roots roots) st'"
proof (induction uuid4 roots st arbitrary: visited rule: collect_roots.induct)
  case (1 uuid4 st)
  then show ?case by simp
next
  case (2 uuid4 root_name root_node rest st)
  show ?case
  proof (cases "root_name \<in> CHROME_ROOT_NAMES")
    case True
    with 2(3) obtain st1 where
      c: "collect_bookmarks_recursively uuid4 root_node [root_name] st 0 = Inr st1"
      and r: "collect_roots uuid4 rest st1 = Inr st'"
      by (auto split: sum.splits)
    from 2(1) [OF True c r collect_invariant(1) [OF c 2(4)]] True show ?thesis by simp
  next
    case False
    with 2(2) [OF False _ 2(4)] 2(3) show ?thesis by simp
  qed
qed

lemma collected_from_initial: "collected_from [] initial_state"
  by (simp add: collected_from_def initial_state_def first_seen_def)

section \<open>The entries the builder returns\<close>

lemma nodes_entries_append:
  "nodes_entries (xs @ ys) = nodes_entries xs @ nodes_entries ys"
  by (induction xs) auto

lemma nodes_entries_bookmarks:
  "nodes_entries (map bookmark_node bs) = map bookmark_node bs"
  by (induction bs) (auto simp: bookmark_node_def)

lemma bookmarks_in_items_insort:
  "mset (bookmarks_in_items (insort_key f x xs))
     = mset (bookmarks_in (snd x)) + mset (bookmarks_in_items xs)"
  by (induction xs) (cases x, auto)+

lemma bookmarks_in_items_sort:
  "mset (bookmarks_in_items (sort_key f xs)) = mset (bookmarks_in_items xs)"
  by (induction xs) (auto simp: bookmarks_in_items_insort)

lemma distinct_keys_items_iff:
  "distinct_keys_items xs \<longleftrightarrow> (\<forall>kv \<in> set xs. distinct_keys (snd kv))"
  by (induction xs) auto

lemma bookmarks_in_items_without:
  "k \<notin> set (map fst d) \<Longrightarrow> filter (\<lambda>kv. fst kv \<noteq> k) d = d"
  by (induction d) auto

lemma bookmarks_in_items_split:
  "distinct (map fst d) \<Longrightarrow> map_of d k = Some v \<Longrightarrow>
   mset (bookmarks_in_items d)
     = mset (bookmarks_in v) + mset (bookmarks_in_items (filter (\<lambda>kv. fst kv \<noteq> k) d))"
proof (induction d)
  case Nil
  then show ?case by simp
next
  case (Cons kv d)
  obtain k' v' where kv: "kv = (k', v')" by (cases kv)
  show ?case
  proof (cases "k' = k")
    case True
    with Cons.prems kv have "k \<notin> set (map fst d)" and "v' = v" by auto
    with True kv show ?thesis by (simp add: bookmarks_in_items_without)
  next
    case False
    with Cons kv show ?thesis by simp
  qed
qed

lemma build_entries:
  "distinct_keys m \<Longrightarrow> build_chrome_json_structure lower uuid4 m calls = Inr (tree, calls') \<Longrightarrow>
   mset (nodes_entries tree) = mset (map bookmark_node (bookmarks_in m))"
  "distinct_keys_items kvs \<Longrightarrow> build_folders lower uuid4 kvs calls = Inr (tree, calls') \<Longrightarrow>
   mset (nodes_entries tree) = mset (map bookmark_node (bookmarks_in_items kvs))"
proof (induction lower uuid4 m calls and lower uuid4 kvs calls arbitrary: tree calls' and tree calls'
       rule: build_chrome_json_structure_build_folders.induct)
  case (1 lower uuid4 bookmarks calls)
  then show ?case by simp
next
  case (2 lower uuid4 d calls)
  let ?temp = "case map_of d ''_bookmarks'' of
                 Some v \<Rightarrow> filter (\<lambda>kv. fst kv \<noteq> ''_bookmarks'') d
               | None \<Rightarrow> d"
  from 2(2) have dk: "distinct (map fst d)" and di: "distinct_keys_items d" by simp_all
  from di have ds: "distinct_keys_items (sort_key (\<lambda>kv. lower (fst kv)) ?temp)"
    by (auto simp: distinct_keys_items_iff split: option.splits)
  from 2(3) obtain folders where
    f: "build_folders lower uuid4 (sort_key (\<lambda>kv. lower (fst kv)) ?temp) calls = Inr (folders, calls')"
    by (auto split: sum.splits option.splits merged.splits if_splits)
  from 2(1) [OF refl refl ds f]
  have fe: "mset (nodes_entries folders) = mset (map bookmark_node (bookmarks_in_items ?temp))"
    by (simp add: bookmarks_in_items_sort)
  show ?case
  proof (cases "map_of d ''_bookmarks''")
    case None
    with 2(3) f have "tree = folders" by simp
    with fe None show ?thesis by simp
  next
    case (Some v)
    from bookmarks_in_items_split [OF dk Some]
    have sp: "mset (bookmarks_in_items d)
                = mset (bookmarks_in v)
                  + mset (bookmarks_in_items (filter (\<lambda>kv. fst kv \<noteq> ''_bookmarks'') d))" .
    show ?thesis
    proof (cases v)
      case (MList bs)
      with 2(3) f Some have
        "tree = folders @ map bookmark_node (sort_key (\<lambda>x. lower (item_name x)) bs)"
        by simp
      with fe Some MList sp show ?thesis
        by (simp add: nodes_entries_append nodes_entries_bookmarks)
    next
      case (MDict dd)
      with 2(3) f Some have "dd = []" and "tree = folders"
        by (auto split: if_splits)
      with fe Some MDict sp show ?thesis by simp
    qed
  qed
next
  case (3 lower uuid4 calls)
  then show ?case by simp
next
  case (4 lower uuid4 folder_name folder_content rest calls)
  from 4(4) obtain fc c1 more where
    b: "build_chrome_json_structure lower uuid4 folder_content calls = Inr (fc, c1)"
    and r: "build_folders lower uuid4 rest (Suc c1) = Inr (more, calls')"
    and t: "tree = folder_node folder_name fc (uuid4 c1) # more"
    by (auto split: sum.splits)
  from 4(3) have dc: "distinct_keys folder_content" and dr: "distinct_keys_items rest"
    by simp_all
  from 4(1) [OF dc b] 4(2) [OF b refl dr r] t show ?case
    by (simp add: folder_node_def)
qed


section \<open>Uniqueness of URLs and first-seen-wins\<close>

lemma map_of_dict_set:
  "map_of d k = Some v0 \<Longrightarrow> map_of (dict_set d k v) k = Some v"
  by (induction d) (auto split: if_splits)

lemma nchildren_set_children: "nchildren (set_children n cs) = Some cs"
  by (cases n) simp

lemma reorganize_saved:
  assumes "run_saved (reorganize lower uuid4 bookmark_data) = Some saved"
  shows "\<exists>roots st tree calls.
           doc_roots bookmark_data = Some roots
         \<and> collect_roots uuid4 roots initial_state = Inr st
         \<and> build_chrome_json_structure lower uuid4 (collected_bookmarks st) (uuid_calls st)
             = Inr (tree, calls)
         \<and> destination_children saved = Some tree"
proof -
  from assms obtain roots where r: "doc_roots bookmark_data = Some roots"
    by (cases "doc_roots bookmark_data") (auto simp: reorganize_def split: if_splits)
  from assms r obtain st where c: "collect_roots uuid4 roots initial_state = Inr st"
    by (cases "collect_roots uuid4 roots initial_state")
       (auto simp: reorganize_def split: if_splits)
  from assms r c obtain tree calls where
    b: "build_chrome_json_structure lower uuid4 (collected_bookmarks st) (uuid_calls st)
          = Inr (tree, calls)"
    by (cases "build_chrome_json_structure lower uuid4 (collected_bookmarks st) (uuid_calls st)")
       (auto simp: reorganize_def Let_def split: if_splits)
  from assms r c b obtain destination where
    d: "map_of (map clear_root roots) DESTINATION_ROOT_NAME = Some destination"
    by (cases "map_of (map clear_root roots) DESTINATION_ROOT_NAME")
       (auto simp: reorganize_def Let_def split: if_splits)
  from assms r c b d have
    "saved = bookmark_data\<lparr>doc_roots :=
        Some (dict_set (map clear_root roots) DESTINATION_ROOT_NAME
                (set_children destination tree))\<rparr>"
    by (auto simp: reorganize_def Let_def split: if_splits)
  with d have "destination_children saved = Some tree"
    by (simp add: destination_children_def map_of_dict_set nchildren_set_children)
  with r c b show ?thesis by blast
qed

lemma run_entries:
  assumes "collect_roots uuid4 roots initial_state = Inr st"
    and "build_chrome_json_structure lower uuid4 (collected_bookmarks st) (uuid_calls st)
           = Inr (tree, calls)"
  shows "collected_from (traversal_roots roots) st"
    and "mset (nodes_entries tree)
           = mset (map bookmark_node (bookmarks_in (collected_bookmarks st)))"
proof -
  from collect_roots_invariant [OF assms(1) collected_from_initial]
  show inv: "collected_from (traversal_roots roots) st" by simp
  then have "distinct_keys (collected_bookmarks st)" by (simp add: collected_from_def)
  from build_entries(1) [OF this assms(2)]
  show "mset (nodes_entries tree)
          = mset (map bookmark_node (bookmarks_in (collected_bookmarks st)))" .
qed

lemma nurl_bookmark_node: "nurl (bookmark_node b) = Some (item_url b)"
  by (simp add: bookmark_node_def)

text \<open>
  Claim C2. Whenever a run reaches the save, the destination tree of the saved document
  holds no URL twice: the URLs of its entries, at any depth, are pairwise different,
  whatever the source tree held and under whichever root-marker containers.
\<close>

theorem destination_urls_distinct:
  assumes "run_saved (reorganize lower uuid4 bookmark_data) = Some saved"
  shows "\<exists>tree. destination_children saved = Some tree
             \<and> distinct (map nurl (nodes_entries tree))"
proof -
  from reorganize_saved [OF assms] obtain roots st tree calls where
    c: "collect_roots uuid4 roots initial_state = Inr st"
    and b: "build_chrome_json_structure lower uuid4 (collected_bookmarks st) (uuid_calls st)
              = Inr (tree, calls)"
    and d: "destination_children saved = Some tree"
    by blast
  let ?B = "bookmarks_in (collected_bookmarks st)"
  from run_entries(1) [OF c b] have "distinct (map item_url ?B)"
    by (simp add: collected_from_def)
  moreover have "inj_on Some (set (map item_url ?B))" by simp
  ultimately have "distinct (map Some (map item_url ?B))"
    using distinct_map by blast
  then have "distinct (map nurl (map bookmark_node ?B))"
    by (simp add: comp_def nurl_bookmark_node)
  moreover from run_entries(2) [OF c b]
  have "mset (map nurl (nodes_entries tree)) = mset (map nurl (map bookmark_node ?B))"
    by (metis mset_map)
  ultimately have "distinct (map nurl (nodes_entries tree))"
    by (metis mset_eq_imp_distinct_iff)
  with d show ?thesis by blast
qed

theorem destination_urls_distinct_witness:
  "run_saved (reorganize ascii_lower sample_uuid4 (basic_merge_document ''http://x'' ''first'' ''second''))
     = Some (run_memory (reorganize ascii_lower sample_uuid4
               (basic_merge_document ''http://x'' ''first'' ''second'')))
   \<and> (\<exists>tree. destination_children
                (run_memory (reorganize ascii_lower sample_uuid4
                   (basic_merge_document ''http://x'' ''first'' ''second''))) = Some tree
            \<and> distinct (map nurl (nodes_entries tree)))"
proof -
  have s: "run_saved (reorganize ascii_lower sample_uuid4 (basic_merge_document ''http://x'' ''first'' ''second''))
             = Some (run_memory (reorganize ascii_lower sample_uuid4
                       (basic_merge_document ''http://x'' ''first'' ''second'')))"
    by (simp add: basic_merge_document_def Let_def eval_defs)
  from destination_urls_distinct [OF s] s show ?thesis by simp
qed

lemma first_seen_first:
  "candidate X = (url, v) \<Longrightarrow> url \<notin> fst ` candidate ` set before \<Longrightarrow>
   first_seen (before @ X # rest) url = Some v"
  by (induction before) (auto simp: first_seen_def)

lemma filter_unique:
  "distinct (map f xs) \<Longrightarrow> x \<in> set xs \<Longrightarrow> filter (\<lambda>y. f y = f x) xs = [x]"
proof (induction xs)
  case Nil
  then show ?case by simp
next
  case (Cons a xs)
  show ?case
  proof (cases "a = x")
    case True
    with Cons.prems have "f x \<notin> f ` set xs" by simp
    then have "\<forall>y \<in> set xs. f y \<noteq> f x" by (metis image_eqI)
    then have "filter (\<lambda>y. f y = f x) xs = []" by (simp add: filter_empty_conv)
    with True show ?thesis by simp
  next
    case False
    with Cons show ?thesis by auto
  qed
qed

text \<open>
  Claim C9. Let the traversal reach an entry \<open>X\<close> and later an entry \<open>Y\<close> with the same
  URL, \<open>X\<close> being the first entry with that URL. Then in the saved document the destination
  tree holds exactly one entry with that URL, and it carries the name and the creation
  timestamp of \<open>X\<close>.
\<close>

theorem first_seen_wins:
  assumes saved: "run_saved (reorganize lower uuid4 bookmark_data) = Some saved"
    and roots: "doc_roots bookmark_data = Some roots"
    and order: "traversal_roots roots = before @ X # between @ Y # after"
    and X: "candidate X = (url, name, date)"
    and Y: "fst (candidate Y) = url"
    and first: "url \<notin> fst ` candidate ` set before"
  shows "\<exists>tree e. destination_children saved = Some tree
           \<and> filter (\<lambda>e. nurl e = Some url) (nodes_entries tree) = [e]
           \<and> nname e = Some name \<and> ndate_added e = Some date"
proof -
  from reorganize_saved [OF saved] roots obtain st tree calls where
    c: "collect_roots uuid4 roots initial_state = Inr st"
    and b: "build_chrome_json_structure lower uuid4 (collected_bookmarks st) (uuid_calls st)
              = Inr (tree, calls)"
    and d: "destination_children saved = Some tree"
    by auto
  let ?B = "bookmarks_in (collected_bookmarks st)"
  note inv = run_entries(1) [OF c b]
  from first_seen_first [OF X first, of "between @ Y # after"] order
  have fs: "first_seen (traversal_roots roots) url = Some (name, date)" by simp
  then have "url \<in> dom (first_seen (traversal_roots roots))" by blast
  with inv obtain x where x: "x \<in> set ?B" and xu: "item_url x = url"
    by (auto simp: collected_from_def)
  from inv x have "first_seen (traversal_roots roots) (item_url x)
                     = Some (item_name x, item_date_added x)"
    by (simp add: collected_from_def)
  with fs xu have nd: "item_name x = name" "item_date_added x = date" by simp_all
  from inv have "distinct (map item_url ?B)" by (simp add: collected_from_def)
  from filter_unique [OF this x] xu
  have fB: "filter (\<lambda>y. item_url y = url) ?B = [x]" by simp
  have "mset (filter (\<lambda>e. nurl e = Some url) (nodes_entries tree))
          = mset (filter (\<lambda>e. nurl e = Some url) (map bookmark_node ?B))"
    by (simp only: mset_filter run_entries(2) [OF c b])
  moreover have "filter (\<lambda>e. nurl e = Some url) (map bookmark_node ?B)
                   = map bookmark_node (filter (\<lambda>y. item_url y = url) ?B)"
    by (simp add: filter_map comp_def nurl_bookmark_node)
  ultimately have "mset (filter (\<lambda>e. nurl e = Some url) (nodes_entries tree))
                     = {#bookmark_node x#}"
    by (simp only: fB list.map mset.simps)
  then have "filter (\<lambda>e. nurl e = Some url) (nodes_entries tree) = [bookmark_node x]"
    by (simp only: mset_single_iff)
  moreover have "nname (bookmark_node x) = Some name"
    and "ndate_added (bookmark_node x) = Some date"
    using nd by (simp_all add: bookmark_node_def)
  ultimately show ?thesis using d by blast
qed


theorem first_seen_wins_witness:
  "run_saved (reorganize ascii_lower sample_uuid4 first_seen_document)
     = Some (run_memory (reorganize ascii_lower sample_uuid4 first_seen_document))
   \<and> traversal_roots (the (doc_roots first_seen_document))
       = [] @ Node (Some ''url'') (Some ''Old name'') (Some ''http://n'') None (Some ''13'')
                None None
            # [] @ Node (Some ''url'') (Some ''New name'') (Some ''http://n'') None (Some ''99'')
                None None # []
   \<and> (\<exists>tree e. destination_children (run_memory (reorganize ascii_lower sample_uuid4 first_seen_document))
                   = Some tree
          \<and> filter (\<lambda>e. nurl e = Some ''http://n'') (nodes_entries tree) = [e]
          \<and> nname e = Some ''Old name'' \<and> ndate_added e = Some ''13'')"
proof -
  let ?X = "Node (Some ''url'') (Some ''Old name'') (Some ''http://n'') None (Some ''13'')
              None None"
  let ?Y = "Node (Some ''url'') (Some ''New name'') (Some ''http://n'') None (Some ''99'')
              None None"
  have s: "run_saved (reorganize ascii_lower sample_uuid4 first_seen_document)
             = Some (run_memory (reorganize ascii_lower sample_uuid4 first_seen_document))"
    by (simp add: first_seen_document_def Let_def eval_defs)
  have r: "doc_roots first_seen_document = Some (the (doc_roots first_seen_document))"
    by (simp add: first_seen_document_def)
  have t: "traversal_roots (the (doc_roots first_seen_document)) = [] @ ?X # [] @ ?Y # []"
    by (simp add: first_seen_document_def folder_def CHROME_ROOT_NAMES_def
          MAX_RECURSION_DEPTH_def startswith_def)
  have x: "candidate ?X = (''http://n'', ''Old name'', ''13'')" by simp
  have y: "fst (candidate ?Y) = ''http://n''" by simp
  have f: "''http://n'' \<notin> fst ` candidate ` set []" by simp
  from first_seen_wins [OF s r t x y f] s t show ?thesis by simp
qed


end
